theory Spec2Isabelle
  imports Main "HOL-Library.Multiset"
begin

section \<open>The generalized heap of gheap_cpp11.hpp\<close>

text \<open>
  The class template \<open>gheap<Fanout, PageChunks>\<close> is embedded function by function.
  The two template parameters become the first two arguments of every function.
  A random-access iterator \<open>first\<close> is the list of the items stored from \<open>first\<close> on, and
  an iterator \<open>first + n\<close> is the offset \<open>n\<close> (\<open>last\<close> is written \<open>last_off\<close>); a comparator is a function
  \<open>'a \<Rightarrow> 'a \<Rightarrow> bool\<close>. Moving a value (\<open>_move\<close>, \<open>std::move\<close>) is a list update.
\<close>

subsection \<open>Arithmetic of \<open>size_t\<close>\<close>

text \<open>
  \<open>size_t\<close> is taken to be the unsigned 64-bit type; its values are the naturals up to
  \<open>SIZE_MAX\<close>, and \<open>+\<close>, \<open>-\<close> and \<open>*\<close> of the source wrap around modulo \<open>2 ^ 64\<close>.
  Division and remainder do not wrap.
\<close>

definition SIZE_MAX :: nat where
  "SIZE_MAX = 2 ^ 64 - 1"

definition wadd :: "nat \<Rightarrow> nat \<Rightarrow> nat" where
  "wadd a b = (a + b) mod 2 ^ 64"

definition wsub :: "nat \<Rightarrow> nat \<Rightarrow> nat" where
  "wsub a b = (a + 2 ^ 64 - b mod 2 ^ 64) mod 2 ^ 64"

definition wmul :: "nat \<Rightarrow> nat \<Rightarrow> nat" where
  "wmul a b = (a * b) mod 2 ^ 64"

subsection \<open>Index mapper\<close>

text \<open>\<open>get_parent_index\<close>, lines 35-62. The source asserts \<open>u > 0\<close>.\<close>

definition get_parent_index :: "nat \<Rightarrow> nat \<Rightarrow> nat \<Rightarrow> nat" where
  "get_parent_index Fanout PageChunks u0 =
     (let u = wsub u0 1 in
      if PageChunks = 1 then u div Fanout
      else if u < Fanout then 0
      else
        let page_size = wmul Fanout PageChunks;
            v = u mod page_size
        in if v \<ge> Fanout then wadd (wsub u v) (v div Fanout)
           else
             let v = wsub (u div page_size) 1;
                 page_leaves = wadd (wmul (wsub Fanout 1) PageChunks) 1;
                 u = wadd (v div page_leaves) 1
             in wadd (wsub (wadd (wmul u page_size) (v mod page_leaves)) page_leaves) 1)"

text \<open>\<open>get_child_index\<close>, lines 68-107. The source asserts \<open>u < SIZE_MAX\<close>.\<close>

definition get_child_index :: "nat \<Rightarrow> nat \<Rightarrow> nat \<Rightarrow> nat" where
  "get_child_index Fanout PageChunks u0 =
     (if PageChunks = 1 then
        (if u0 > wsub SIZE_MAX 1 div Fanout then SIZE_MAX
         else wadd (wmul u0 Fanout) 1)
      else if u0 = 0 then 1
      else
        let page_size = wmul Fanout PageChunks;
            u = wsub u0 1;
            v = wadd (u mod page_size) 1
        in if v < page_size div Fanout then
             (let v = wmul v (wsub Fanout 1)
              in if u > wsub (wsub SIZE_MAX 2) v then SIZE_MAX
                 else wadd (wadd u v) 2)
           else
             let page_leaves = wadd (wmul (wsub Fanout 1) PageChunks) 1;
                 v = wadd v (wsub (wmul (wadd (u div page_size) 1) page_leaves) page_size)
             in if v > wsub SIZE_MAX 1 div page_size then SIZE_MAX
                else wadd (wmul v page_size) 1)"

subsection \<open>Sift engine\<close>

text \<open>
  The functions that walk the array return an option. \<open>None\<close> stands for a call without a
  defined result: a loop that does not end, or an access \<open>first[i]\<close> outside the items stored
  from \<open>first\<close> on, which is undefined behaviour in C++. The assertions of the source are
  compiled out by \<open>-DNDEBUG\<close>; they are the preconditions of the theorems below, not branches
  of the model.
\<close>

text \<open>\<open>_sift_up\<close>, lines 127-150.\<close>

partial_function (option) sift_up ::
  "nat \<Rightarrow> nat \<Rightarrow> ('a \<Rightarrow> 'a \<Rightarrow> bool) \<Rightarrow> 'a list \<Rightarrow> nat \<Rightarrow> nat \<Rightarrow> 'a \<Rightarrow> 'a list option" where
  "sift_up Fanout PageChunks less_comparer first root_index hole_index item =
     (if hole_index > root_index then
        (let parent_index = get_parent_index Fanout PageChunks hole_index in
         if parent_index < length first \<and> hole_index < length first then
           (let parent = first ! parent_index in
            if \<not> less_comparer parent item then Some (first[hole_index := item])
            else sift_up Fanout PageChunks less_comparer (first[hole_index := parent])
                   root_index parent_index item)
         else None)
      else if hole_index < length first then Some (first[hole_index := item])
      else None)"

text \<open>
  \<open>_move_up_max_child\<close>, lines 154-175. The scan keeps the offset \<open>j\<close> of the incumbent;
  \<open>max_child\<close> of the source always points to \<open>first[child_index + j]\<close>.
\<close>

definition max_child_offset ::
  "('a \<Rightarrow> 'a \<Rightarrow> bool) \<Rightarrow> 'a list \<Rightarrow> nat \<Rightarrow> nat \<Rightarrow> nat" where
  "max_child_offset less_comparer first children_count child_index =
     fold (\<lambda>i j. if \<not> less_comparer (first ! wadd child_index i) (first ! wadd child_index j)
                  then i else j)
          [1..<children_count] 0"

definition move_up_max_child ::
  "('a \<Rightarrow> 'a \<Rightarrow> bool) \<Rightarrow> 'a list \<Rightarrow> nat \<Rightarrow> nat \<Rightarrow> nat \<Rightarrow> ('a list \<times> nat) option" where
  "move_up_max_child less_comparer first children_count hole_index child_index =
     (if hole_index < length first \<and> child_index < length first
         \<and> (\<forall>i \<in> set [1..<children_count]. wadd child_index i < length first) then
        (let j = max_child_offset less_comparer first children_count child_index
         in Some (first[hole_index := first ! wadd child_index j], wadd child_index j))
      else None)"

text \<open>\<open>_sift_down\<close>, lines 180-206: the loop, then the closing \<open>_sift_up\<close>.\<close>

partial_function (option) sift_down_loop ::
  "nat \<Rightarrow> nat \<Rightarrow> ('a \<Rightarrow> 'a \<Rightarrow> bool) \<Rightarrow> 'a list \<Rightarrow> nat \<Rightarrow> nat \<Rightarrow> nat \<Rightarrow> ('a list \<times> nat) option"
  where
  "sift_down_loop Fanout PageChunks less_comparer first heap_size remaining_items hole_index =
     (let child_index = get_child_index Fanout PageChunks hole_index in
      if child_index \<ge> wsub heap_size remaining_items then
        (if child_index < heap_size then
           move_up_max_child less_comparer first remaining_items hole_index child_index
         else Some (first, hole_index))
      else
        Option.bind (move_up_max_child less_comparer first Fanout hole_index child_index)
          (\<lambda>(first', hole_index').
             sift_down_loop Fanout PageChunks less_comparer first' heap_size remaining_items
               hole_index'))"

definition sift_down ::
  "nat \<Rightarrow> nat \<Rightarrow> ('a \<Rightarrow> 'a \<Rightarrow> bool) \<Rightarrow> 'a list \<Rightarrow> nat \<Rightarrow> nat \<Rightarrow> 'a \<Rightarrow> 'a list option" where
  "sift_down Fanout PageChunks less_comparer first heap_size hole_index item =
     (let root_index = hole_index;
          remaining_items = wsub heap_size 1 mod Fanout
      in Option.bind
           (sift_down_loop Fanout PageChunks less_comparer first heap_size remaining_items
              hole_index)
           (\<lambda>(first', hole_index').
              sift_up Fanout PageChunks less_comparer first' root_index hole_index' item))"

text \<open>\<open>_pop_heap\<close>, lines 209-222.\<close>

definition pop_heap_priv ::
  "nat \<Rightarrow> nat \<Rightarrow> ('a \<Rightarrow> 'a \<Rightarrow> bool) \<Rightarrow> 'a list \<Rightarrow> nat \<Rightarrow> 'a list option" where
  "pop_heap_priv Fanout PageChunks less_comparer first heap_size =
     (let hole_index = wsub heap_size 1 in
      if hole_index < length first \<and> 0 < length first then
        (let item = first ! hole_index
         in sift_down Fanout PageChunks less_comparer (first[hole_index := first ! 0])
              hole_index 0 item)
      else None)"

text \<open>\<open>_nway_merge_less_comparer\<close>, lines 234-254. An input range, a pair of iterators, is the
  list of the items between them: \<open>*(r.first)\<close> is its head, \<open>++(r.first)\<close> drops the head,
  and \<open>r.first == r.second\<close> holds when the list is empty. The source asserts that both
  ranges are non-empty; the comparer is not called otherwise.\<close>

definition nway_merge_less_comparer ::
  "('b \<Rightarrow> 'b \<Rightarrow> bool) \<Rightarrow> 'b list \<Rightarrow> 'b list \<Rightarrow> bool" where
  "nway_merge_less_comparer less_comparer input_range_a input_range_b =
     (case (input_range_a, input_range_b) of
        (a # _, b # _) \<Rightarrow> less_comparer b a
      | _ \<Rightarrow> False)"

subsection \<open>Heap algorithms\<close>

text \<open>\<open>is_heap_until\<close>, lines 262-276, with \<open>last\<close> the offset of the end of the range;
  the loop starts at \<open>u\<close>.\<close>

function is_heap_until_from ::
  "nat \<Rightarrow> nat \<Rightarrow> ('a \<Rightarrow> 'a \<Rightarrow> bool) \<Rightarrow> 'a list \<Rightarrow> nat \<Rightarrow> nat \<Rightarrow> nat option" where
  "is_heap_until_from Fanout PageChunks less_comparer first heap_size u =
     (if u < heap_size then
        (let v = get_parent_index Fanout PageChunks u in
         if v < length first \<and> u < length first then
           (if less_comparer (first ! v) (first ! u) then Some u
            else is_heap_until_from Fanout PageChunks less_comparer first heap_size (u + 1))
         else None)
      else Some heap_size)"
  by pat_completeness auto
termination
  by (relation "measure (\<lambda>(Fanout, PageChunks, less_comparer, first, heap_size, u). heap_size - u)")
     auto

declare is_heap_until_from.simps [simp del]

definition is_heap_until ::
  "nat \<Rightarrow> nat \<Rightarrow> ('a \<Rightarrow> 'a \<Rightarrow> bool) \<Rightarrow> 'a list \<Rightarrow> nat \<Rightarrow> nat option" where
  "is_heap_until Fanout PageChunks less_comparer first last_off =
     is_heap_until_from Fanout PageChunks less_comparer first last_off 1"

text \<open>\<open>is_heap\<close>, lines 291-296.\<close>

definition is_heap ::
  "nat \<Rightarrow> nat \<Rightarrow> ('a \<Rightarrow> 'a \<Rightarrow> bool) \<Rightarrow> 'a list \<Rightarrow> nat \<Rightarrow> bool option" where
  "is_heap Fanout PageChunks less_comparer first last_off =
     map_option (\<lambda>r. r = last_off) (is_heap_until Fanout PageChunks less_comparer first last_off)"

text \<open>\<open>make_heap\<close>, lines 310-333. The do-while loop runs its body at \<open>i\<close>, then at
  \<open>i - 1\<close>, down to \<open>0\<close>.\<close>

fun make_heap_loop ::
  "nat \<Rightarrow> nat \<Rightarrow> ('a \<Rightarrow> 'a \<Rightarrow> bool) \<Rightarrow> 'a list \<Rightarrow> nat \<Rightarrow> nat \<Rightarrow> 'a list option" where
  "make_heap_loop Fanout PageChunks less_comparer first heap_size 0 =
     (if 0 < length first then
        sift_down Fanout PageChunks less_comparer first heap_size 0 (first ! 0)
      else None)"
| "make_heap_loop Fanout PageChunks less_comparer first heap_size (Suc i) =
     (if Suc i < length first then
        Option.bind
          (sift_down Fanout PageChunks less_comparer first heap_size (Suc i) (first ! Suc i))
          (\<lambda>first'. make_heap_loop Fanout PageChunks less_comparer first' heap_size i)
      else None)"

definition make_heap ::
  "nat \<Rightarrow> nat \<Rightarrow> ('a \<Rightarrow> 'a \<Rightarrow> bool) \<Rightarrow> 'a list \<Rightarrow> nat \<Rightarrow> 'a list option" where
  "make_heap Fanout PageChunks less_comparer first last_off =
     (let heap_size = last_off in
      if heap_size > 1 then
        (let i = (if PageChunks = 1 then wsub heap_size 2 div Fanout else wsub heap_size 2)
         in make_heap_loop Fanout PageChunks less_comparer first heap_size i)
      else Some first)"

text \<open>\<open>push_heap\<close>, lines 346-364.\<close>

definition push_heap ::
  "nat \<Rightarrow> nat \<Rightarrow> ('a \<Rightarrow> 'a \<Rightarrow> bool) \<Rightarrow> 'a list \<Rightarrow> nat \<Rightarrow> 'a list option" where
  "push_heap Fanout PageChunks less_comparer first last_off =
     (let heap_size = last_off in
      if heap_size > 1 then
        (let u = wsub heap_size 1 in
         if u < length first then
           sift_up Fanout PageChunks less_comparer first 0 u (first ! u)
         else None)
      else Some first)"

text \<open>\<open>pop_heap\<close>, lines 377-390.\<close>

definition pop_heap ::
  "nat \<Rightarrow> nat \<Rightarrow> ('a \<Rightarrow> 'a \<Rightarrow> bool) \<Rightarrow> 'a list \<Rightarrow> nat \<Rightarrow> 'a list option" where
  "pop_heap Fanout PageChunks less_comparer first last_off =
     (let heap_size = last_off in
      if heap_size > 1 then pop_heap_priv Fanout PageChunks less_comparer first heap_size
      else Some first)"

text \<open>\<open>sort_heap\<close>, lines 404-414; the loop starts at \<open>i\<close>.\<close>

function sort_heap_loop ::
  "nat \<Rightarrow> nat \<Rightarrow> ('a \<Rightarrow> 'a \<Rightarrow> bool) \<Rightarrow> 'a list \<Rightarrow> nat \<Rightarrow> 'a list option" where
  "sort_heap_loop Fanout PageChunks less_comparer first i =
     (if i > 1 then
        Option.bind (pop_heap_priv Fanout PageChunks less_comparer first i)
          (\<lambda>first'. sort_heap_loop Fanout PageChunks less_comparer first' (i - 1))
      else Some first)"
  by pat_completeness auto
termination
  by (relation "measure (\<lambda>(Fanout, PageChunks, less_comparer, first, i). i)") auto

declare sort_heap_loop.simps [simp del]

definition sort_heap ::
  "nat \<Rightarrow> nat \<Rightarrow> ('a \<Rightarrow> 'a \<Rightarrow> bool) \<Rightarrow> 'a list \<Rightarrow> nat \<Rightarrow> 'a list option" where
  "sort_heap Fanout PageChunks less_comparer first last_off =
     sort_heap_loop Fanout PageChunks less_comparer first last_off"

text \<open>\<open>restore_heap_after_item_increase\<close>, lines 427-445; \<open>item\<close> is the offset of the
  item from \<open>first\<close>.\<close>

definition restore_heap_after_item_increase ::
  "nat \<Rightarrow> nat \<Rightarrow> ('a \<Rightarrow> 'a \<Rightarrow> bool) \<Rightarrow> 'a list \<Rightarrow> nat \<Rightarrow> 'a list option" where
  "restore_heap_after_item_increase Fanout PageChunks less_comparer first item =
     (let hole_index = item in
      if hole_index > 0 then
        (if item < length first then
           sift_up Fanout PageChunks less_comparer first 0 hole_index (first ! item)
         else None)
      else Some first)"

text \<open>\<open>restore_heap_after_item_decrease\<close>, lines 459-478.\<close>

definition restore_heap_after_item_decrease ::
  "nat \<Rightarrow> nat \<Rightarrow> ('a \<Rightarrow> 'a \<Rightarrow> bool) \<Rightarrow> 'a list \<Rightarrow> nat \<Rightarrow> nat \<Rightarrow> 'a list option" where
  "restore_heap_after_item_decrease Fanout PageChunks less_comparer first item last_off =
     (let heap_size = last_off;
          hole_index = item
      in if item < length first then
           sift_down Fanout PageChunks less_comparer first heap_size hole_index (first ! item)
         else None)"

text \<open>\<open>remove_from_heap\<close>, lines 493-520.\<close>

definition remove_from_heap ::
  "nat \<Rightarrow> nat \<Rightarrow> ('a \<Rightarrow> 'a \<Rightarrow> bool) \<Rightarrow> 'a list \<Rightarrow> nat \<Rightarrow> nat \<Rightarrow> 'a list option" where
  "remove_from_heap Fanout PageChunks less_comparer first item last_off =
     (let new_heap_size = wsub last_off 1;
          hole_index = item
      in if hole_index < new_heap_size then
           (if new_heap_size < length first \<and> item < length first then
              (let tmp = first ! new_heap_size;
                   first' = first[new_heap_size := first ! item]
               in if less_comparer tmp (first' ! new_heap_size) then
                    sift_down Fanout PageChunks less_comparer first' new_heap_size hole_index tmp
                  else sift_up Fanout PageChunks less_comparer first' 0 hole_index tmp)
            else None)
         else Some first)"

subsection \<open>N-way merge\<close>

text \<open>\<open>nway_merge\<close>, lines 543-576. \<open>first\<close> is the array of the input ranges, \<open>last\<close> the
  offset of the end of its active part, and \<open>output\<close> the items written through the output
  iterator so far. The result is the array of ranges as the call leaves it and the output.\<close>

partial_function (option) nway_merge_loop ::
  "nat \<Rightarrow> nat \<Rightarrow> ('b \<Rightarrow> 'b \<Rightarrow> bool) \<Rightarrow> 'b list list \<Rightarrow> nat \<Rightarrow> 'b list
     \<Rightarrow> ('b list list \<times> 'b list) option" where
  "nway_merge_loop Fanout PageChunks less_comparer first last_off output =
     (case first of
        [] \<Rightarrow> None
      | input_range # _ \<Rightarrow>
          (case input_range of
             [] \<Rightarrow> None
           | x # input_range' \<Rightarrow>
               (let output' = output @ [x];
                    first' = first[0 := input_range']
                in if input_range' = [] then
                     (let last_off' = wsub last_off 1 in
                      if last_off' = 0 then Some (first', output')
                      else if last_off' < length first' then
                        Option.bind
                          (restore_heap_after_item_decrease Fanout PageChunks
                             (nway_merge_less_comparer less_comparer)
                             (first'[0 := first' ! last_off', last_off' := first' ! 0]) 0 last_off')
                          (\<lambda>first''. nway_merge_loop Fanout PageChunks less_comparer first''
                                        last_off' output')
                      else None)
                   else
                     Option.bind
                       (restore_heap_after_item_decrease Fanout PageChunks
                          (nway_merge_less_comparer less_comparer) first' 0 last_off)
                       (\<lambda>first''. nway_merge_loop Fanout PageChunks less_comparer first''
                                     last_off output'))))"

definition nway_merge ::
  "nat \<Rightarrow> nat \<Rightarrow> ('b \<Rightarrow> 'b \<Rightarrow> bool) \<Rightarrow> 'b list list \<Rightarrow> nat \<Rightarrow> ('b list list \<times> 'b list) option"
  where
  "nway_merge Fanout PageChunks less_comparer input_ranges_first input_ranges_last =
     Option.bind
       (make_heap Fanout PageChunks (nway_merge_less_comparer less_comparer)
          input_ranges_first input_ranges_last)
       (\<lambda>first. nway_merge_loop Fanout PageChunks less_comparer first input_ranges_last [])"

section \<open>Notions used to state the properties\<close>

text \<open>The layouts the source admits: its assertion \<open>PageChunks <= SIZE_MAX / Fanout\<close>
  (lines 49 and 85), with the fanout and the page chunks of the specification.\<close>

definition valid_layout :: "nat \<Rightarrow> nat \<Rightarrow> bool" where
  "valid_layout Fanout PageChunks \<longleftrightarrow>
     2 \<le> Fanout \<and> 1 \<le> PageChunks \<and> PageChunks \<le> SIZE_MAX div Fanout"

text \<open>The first child and the parent of a node computed as the source does, on the
  unbounded naturals: no operation wraps around and there is no sentinel.\<close>

definition child_index_exact :: "nat \<Rightarrow> nat \<Rightarrow> nat \<Rightarrow> nat" where
  "child_index_exact Fanout PageChunks u0 =
     (if PageChunks = 1 then u0 * Fanout + 1
      else if u0 = 0 then 1
      else
        let page_size = Fanout * PageChunks;
            u = u0 - 1;
            v = u mod page_size + 1
        in if v < page_size div Fanout then u + v * (Fanout - 1) + 2
           else
             let page_leaves = (Fanout - 1) * PageChunks + 1
             in (v + (u div page_size + 1) * page_leaves - page_size) * page_size + 1)"

definition parent_index_exact :: "nat \<Rightarrow> nat \<Rightarrow> nat \<Rightarrow> nat" where
  "parent_index_exact Fanout PageChunks u0 =
     (let u = u0 - 1 in
      if PageChunks = 1 then u div Fanout
      else if u < Fanout then 0
      else
        let page_size = Fanout * PageChunks;
            v = u mod page_size
        in if v \<ge> Fanout then u - v + v div Fanout
           else
             let w = u div page_size - 1;
                 page_leaves = (Fanout - 1) * PageChunks + 1
             in (w div page_leaves + 1) * page_size + w mod page_leaves - page_leaves + 1)"


text \<open>The comparators of the specification: strict weak orders.\<close>

definition strict_weak_order :: "('a \<Rightarrow> 'a \<Rightarrow> bool) \<Rightarrow> bool" where
  "strict_weak_order less_comparer \<longleftrightarrow>
     (\<forall>a. \<not> less_comparer a a)
     \<and> (\<forall>a b c. less_comparer a b \<longrightarrow> less_comparer b c \<longrightarrow> less_comparer a c)
     \<and> (\<forall>a b c. \<not> less_comparer a b \<longrightarrow> \<not> less_comparer b c \<longrightarrow> \<not> less_comparer a c)"

text \<open>\<open>descendant Fanout PageChunks r c\<close>: walking from \<open>c\<close> to the parent, again and again,
  reaches \<open>r\<close>.\<close>

inductive descendant :: "nat \<Rightarrow> nat \<Rightarrow> nat \<Rightarrow> nat \<Rightarrow> bool" for Fanout PageChunks r where
  descendant_refl: "descendant Fanout PageChunks r r"
| descendant_step:
    "descendant Fanout PageChunks r (get_parent_index Fanout PageChunks c) \<Longrightarrow> 1 \<le> c
       \<Longrightarrow> descendant Fanout PageChunks r c"

text \<open>\<open>heap_from Fanout PageChunks less_comparer xs n r\<close>: among the first \<open>n\<close> items of \<open>xs\<close>,
  no item whose parent has index at least \<open>r\<close> ranks above its parent. With \<open>r = 0\<close> this is
  the max-heap property of the specification.\<close>

definition heap_from ::
  "nat \<Rightarrow> nat \<Rightarrow> ('a \<Rightarrow> 'a \<Rightarrow> bool) \<Rightarrow> 'a list \<Rightarrow> nat \<Rightarrow> nat \<Rightarrow> bool" where
  "heap_from Fanout PageChunks less_comparer xs n r \<longleftrightarrow>
     (\<forall>u. 1 \<le> u \<and> u < n \<and> r \<le> get_parent_index Fanout PageChunks u
          \<longrightarrow> \<not> less_comparer (xs ! get_parent_index Fanout PageChunks u) (xs ! u))"

text \<open>The reference full sort of the specification: insertion sort under the comparator.\<close>

fun ref_insert :: "('a \<Rightarrow> 'a \<Rightarrow> bool) \<Rightarrow> 'a \<Rightarrow> 'a list \<Rightarrow> 'a list" where
  "ref_insert less_comparer x [] = [x]"
| "ref_insert less_comparer x (y # ys) =
     (if less_comparer y x then y # ref_insert less_comparer x ys else x # y # ys)"

definition ref_sort :: "('a \<Rightarrow> 'a \<Rightarrow> bool) \<Rightarrow> 'a list \<Rightarrow> 'a list" where
  "ref_sort less_comparer xs = foldr (ref_insert less_comparer) xs []"

text \<open>Ascending order under the comparator: no item ranks below an earlier one.\<close>

definition ascending :: "('a \<Rightarrow> 'a \<Rightarrow> bool) \<Rightarrow> 'a list \<Rightarrow> bool" where
  "ascending less_comparer xs = sorted_wrt (\<lambda>a b. \<not> less_comparer b a) xs"

text \<open>Two items of equal rank: neither ranks below the other.\<close>

definition equal_rank :: "('a \<Rightarrow> 'a \<Rightarrow> bool) \<Rightarrow> 'a \<Rightarrow> 'a \<Rightarrow> bool" where
  "equal_rank less_comparer a b \<longleftrightarrow> \<not> less_comparer a b \<and> \<not> less_comparer b a"

text \<open>The drivers of the removal scenario of the specification: \<open>step\<close> is applied to the
  range of \<open>n\<close> items, then of \<open>n - 1\<close> items, down to one item.\<close>

fun repeat_shrinking ::
  "('a list \<Rightarrow> nat \<Rightarrow> 'a list option) \<Rightarrow> 'a list \<Rightarrow> nat \<Rightarrow> 'a list option" where
  "repeat_shrinking step first 0 = Some first"
| "repeat_shrinking step first (Suc n) =
     Option.bind (step first (Suc n)) (\<lambda>first'. repeat_shrinking step first' n)"

text \<open>A comparator that is a strict weak order and not a total one: pairs ranked by their
  first component.\<close>

definition by_key :: "nat \<times> nat \<Rightarrow> nat \<times> nat \<Rightarrow> bool" where
  "by_key a b \<longleftrightarrow> fst a < fst b"

text \<open>An order on input ranges used in the proofs about \<open>nway_merge\<close>: on non-empty ranges
  it is \<open>nway_merge_less_comparer\<close>, and it ranks an exhausted range below every non-empty
  one, which makes it a strict weak order on all ranges.\<close>

definition range_order :: "('b \<Rightarrow> 'b \<Rightarrow> bool) \<Rightarrow> 'b list \<Rightarrow> 'b list \<Rightarrow> bool" where
  "range_order less_comparer a b =
     (case b of [] \<Rightarrow> False
      | y # _ \<Rightarrow> (case a of [] \<Rightarrow> True | x # _ \<Rightarrow> less_comparer y x))"

section \<open>Arithmetic of the index mapper\<close>

lemma wadd_eq: "a + b \<le> SIZE_MAX \<Longrightarrow> wadd a b = a + b"
  by (simp add: wadd_def SIZE_MAX_def)

lemma wrap_sub:
  fixes M :: nat
  assumes "b \<le> a" "a < M"
  shows "(a + M - b mod M) mod M = a - b"
proof -
  have 1: "b mod M = b" using assms by simp
  have 2: "a + M - b = (a - b) + M" using assms(1) by (rule Nat.diff_add_assoc2)
  have 3: "a - b < M" using assms(2) by (rule less_imp_diff_less)
  have "(a + M - b mod M) mod M = ((a - b) + M) mod M" by (simp only: 1 2)
  also have "\<dots> = a - b" using 3 by simp
  finally show ?thesis .
qed

lemma wsub_eq: "b \<le> a \<Longrightarrow> a \<le> SIZE_MAX \<Longrightarrow> wsub a b = a - b"
  unfolding wsub_def by (rule wrap_sub) (simp_all add: SIZE_MAX_def)

lemma wmul_eq: "a * b \<le> SIZE_MAX \<Longrightarrow> wmul a b = a * b"
  by (simp add: wmul_def SIZE_MAX_def)

lemma wrap_sub_add:
  fixes M :: nat
  assumes "d \<le> M" "d \<le> a + x" "a + x - d < M"
  shows "(a + ((x mod M) + M - d) mod M) mod M = a + x - d"
proof -
  have "(a + ((x mod M) + M - d) mod M) mod M = (a + ((x mod M) + (M - d)) mod M) mod M"
    using assms(1) by simp
  also have "\<dots> = (a + (x + (M - d))) mod M"
    by (simp add: mod_add_right_eq mod_add_left_eq)
  also have "a + (x + (M - d)) = (a + x - d) + M"
    using assms(1,2) by simp
  also have "((a + x - d) + M) mod M = a + x - d"
    using assms(3) by simp
  finally show ?thesis .
qed

lemma layout_facts:
  assumes "valid_layout F C"
  shows "F * C \<le> SIZE_MAX" "2 \<le> F" "1 \<le> C" "wmul F C = F * C" "wsub F 1 = F - 1"
    "wadd (wmul (wsub F 1) C) 1 = (F - 1) * C + 1" "F \<le> SIZE_MAX" "C \<le> SIZE_MAX"
    "(F - 1) * C + 1 \<le> F * C"
proof -
  from assms have F: "2 \<le> F" and C: "1 \<le> C" and le: "C \<le> SIZE_MAX div F"
    by (simp_all add: valid_layout_def)
  from le F have "C * F \<le> SIZE_MAX"
    by (simp add: less_eq_div_iff_mult_less_eq)
  then show FC: "F * C \<le> SIZE_MAX" by (simp add: mult.commute)
  show "2 \<le> F" "1 \<le> C" by fact+
  show "wmul F C = F * C" using FC by (rule wmul_eq)
  have "F \<le> F * C" using C by simp
  then show FS: "F \<le> SIZE_MAX" using FC by linarith
  have "C \<le> F * C" using F by simp
  then show "C \<le> SIZE_MAX" using FC by linarith
  show s: "wsub F 1 = F - 1" using F FS by (simp add: wsub_eq)
  have "(F - 1) * C + C = F * C" using F
    by (metis Nat.add_diff_assoc2 One_nat_def Suc_1 Suc_leD add.commute add_diff_cancel_left' mult.commute mult_Suc_right nat_mult_1_right)
  then show pl: "(F - 1) * C + 1 \<le> F * C" using C by linarith
  then have "(F - 1) * C \<le> SIZE_MAX" "(F - 1) * C + 1 \<le> SIZE_MAX" using FC by linarith+
  then show "wadd (wmul (wsub F 1) C) 1 = (F - 1) * C + 1"
    by (simp only: s wmul_eq wadd_eq)
qed


lemma dm_div: "x < n \<Longrightarrow> (q * n + x) div n = (q::nat)"
  by (cases "n = 0") simp_all

lemma dm_mod: "x < n \<Longrightarrow> (q * n + x) mod n = (x::nat)"
  by simp

lemma le_mult_pos: "0 < n \<Longrightarrow> (m::nat) \<le> m * n"
  by simp

lemma pl_ps: "1 \<le> F \<Longrightarrow> (F - 1) * C + C = F * (C::nat)"
  by (cases F) (simp_all add: algebra_simps)

lemma child_exact_flat: "child_index_exact F 1 u = u * F + 1"
  by (simp add: child_index_exact_def)

lemma child_exact_root: "child_index_exact F C 0 = 1"
  by (simp add: child_index_exact_def)

lemma child_exact_fast:
  assumes "2 \<le> F" "2 \<le> C" "r + 1 < C"
  shows "child_index_exact F C (q * (F * C) + r + 1) = q * (F * C) + (r + 1) * F + 1"
proof -
  obtain F' where F: "F = Suc F'" using assms(1) by (cases F) auto
  have r: "r < F * C" using assms by (simp add: F)
  have d: "F * C div F = C" using assms by simp
  have m: "(q * (F * C) + r) mod (F * C) = r" using r by simp
  show ?thesis
    unfolding child_index_exact_def using assms
    by (simp add: Let_def d m) (simp add: F algebra_simps)
qed

lemma child_exact_slow:
  assumes "2 \<le> F" "2 \<le> C" "l < (F - 1) * C + 1"
  shows "child_index_exact F C (q * (F * C) + C + l)
           = (q * ((F - 1) * C + 1) + l + 1) * (F * C) + 1"
proof -
  obtain F' where F: "F = Suc F'" using assms(1) by (cases F) auto
  obtain C' where C: "C = Suc C'" using assms(2) by (cases C) auto
  have r: "C' + l < F * C" using assms(3) by (simp add: F C)
  have d: "F * C div F = C" using assms by simp
  have u: "q * (F * C) + C + l - 1 = q * (F * C) + (C' + l)" by (simp add: C)
  have m: "(q * (F * C) + (C' + l)) mod (F * C) = C' + l" using r by simp
  have dv: "(q * (F * C) + (C' + l)) div (F * C) = q" using r by (rule dm_div)
  have e: "C' + l + 1 + (q + 1) * ((F - 1) * C + 1) - F * C = q * ((F - 1) * C + 1) + l + 1"
    by (simp add: F C algebra_simps)
  have ne: "q * (F * C) + C + l \<noteq> 0" "C \<noteq> 1" using assms by (simp_all add: C)
  have nl: "\<not> C' + l + 1 < C" by (simp add: C)
  show ?thesis
    unfolding child_index_exact_def Let_def u m dv d
    using ne nl e by simp
qed

lemma parent_exact_flat: "parent_index_exact F 1 v = (v - 1) div F"
  by (simp add: parent_index_exact_def)

lemma parent_exact_top:
  assumes "k < F"
  shows "parent_index_exact F C (k + 1) = (if C = 1 then k div F else 0)"
  using assms by (simp add: parent_index_exact_def)

lemma parent_exact_fast:
  assumes "2 \<le> F" "2 \<le> C" "1 \<le> g" "g < C" "k < F"
  shows "parent_index_exact F C (q * (F * C) + g * F + k + 1) = q * (F * C) + g"
proof -
  have lt: "g * F + k < F * C"
  proof -
    have "g * F + k < g * F + F" using assms(5) by simp
    also have "\<dots> = (g + 1) * F" by simp
    also have "\<dots> \<le> C * F" using assms(4) by (intro mult_le_mono1) simp
    finally show ?thesis by (simp add: mult.commute)
  qed
  have m: "(q * (F * C) + g * F + k) mod (F * C) = g * F + k"
    using lt by (simp add: add.assoc)
  have ge: "F \<le> g * F + k" using assms(3) by (cases g) simp_all
  have dv: "(g * F + k) div F = g" using assms by simp
  have nl: "\<not> q * (F * C) + g * F + k < F" using ge by simp
  have c: "C \<noteq> 1" using assms(2) by simp
  show ?thesis
    unfolding parent_index_exact_def Let_def
    using c nl ge by (simp add: m dv)
qed

lemma parent_exact_slow_aux:
  assumes "C \<noteq> 1" "\<not> u < F" "u mod (F * C) = k" "k < F" "u div (F * C) = P" "P - 1 = w"
    "w div ((F - 1) * C + 1) = a" "w mod ((F - 1) * C + 1) = b"
    "(a + 1) * (F * C) + b - ((F - 1) * C + 1) + 1 = R"
  shows "parent_index_exact F C (u + 1) = R"
  using assms by (simp add: parent_index_exact_def Let_def)

lemma parent_exact_slow:
  assumes "2 \<le> F" "2 \<le> C" "b < (F - 1) * C + 1" "k < F"
  shows "parent_index_exact F C ((a * ((F - 1) * C + 1) + b + 1) * (F * C) + k + 1)
           = a * (F * C) + C + b"
proof (rule parent_exact_slow_aux)
  let ?pl = "(F - 1) * C + 1" and ?ps = "F * C"
  let ?P = "a * ?pl + b + 1"
  have "F * 1 \<le> F * C" using assms(2) by (intro mult_le_mono2) simp
  then have Fps: "F \<le> ?ps" by simp
  have kps: "k < ?ps" using assms(4) Fps by (rule less_le_trans)
  show "(?P * ?ps + k) mod ?ps = k" using kps by (rule dm_mod)
  show "(?P * ?ps + k) div ?ps = ?P" using kps by (rule dm_div)
  show "\<not> ?P * ?ps + k < F"
  proof -
    have "?ps \<le> ?P * ?ps" by simp
    with Fps have "F \<le> ?P * ?ps + k" by linarith
    then show ?thesis by linarith
  qed
  show "?P - 1 = a * ?pl + b" by simp
  show "(a * ?pl + b) div ?pl = a" using assms(3) by (rule dm_div)
  show "(a * ?pl + b) mod ?pl = b" using assms(3) by (rule dm_mod)
  show "(a + 1) * ?ps + b - ?pl + 1 = a * ?ps + C + b"
  proof -
    obtain F' where F: "F = Suc F'" using assms(1) by (cases F) auto
    obtain C' where C: "C = Suc C'" using assms(2) by (cases C) auto
    show ?thesis by (simp add: F C algebra_simps)
  qed
  show "C \<noteq> 1" using assms(2) by simp
  show "k < F" by fact
qed


lemma child_cases:
  fixes F C u :: nat
  assumes "2 \<le> F" "2 \<le> C" "1 \<le> u"
  obtains (fast) q r where "u = q * (F * C) + r + 1" "r + 1 < C"
        | (slow) q l where "u = q * (F * C) + C + l" "l < (F - 1) * C + 1"
proof -
  let ?ps = "F * C"
  define q where "q = (u - 1) div ?ps"
  define r where "r = (u - 1) mod ?ps"
  have ps: "0 < ?ps" using assms by simp
  have "u - 1 = q * ?ps + r" unfolding q_def r_def by (rule div_mult_mod_eq[symmetric])
  then have u: "u = q * ?ps + r + 1" using assms(3) by linarith
  have r: "r < ?ps" using ps by (simp add: r_def)
  show thesis
  proof (cases "r + 1 < C")
    case True
    then show ?thesis using u fast by blast
  next
    case False
    define l where "l = r + 1 - C"
    have "u = q * ?ps + C + l" using u False by (simp add: l_def)
    moreover have "l < (F - 1) * C + 1"
      using r False pl_ps[of F C] assms(1) by (simp add: l_def)
    ultimately show ?thesis using slow by blast
  qed
qed

lemma parent_cases:
  fixes F C v :: nat
  assumes "2 \<le> F" "2 \<le> C" "1 \<le> v"
  obtains (top) k where "v = k + 1" "k < F"
        | (fast) q g k where "v = q * (F * C) + g * F + k + 1" "1 \<le> g" "g < C" "k < F"
        | (slow) a b k where "v = (a * ((F - 1) * C + 1) + b + 1) * (F * C) + k + 1"
                             "b < (F - 1) * C + 1" "k < F"
proof -
  let ?ps = "F * C" and ?pl = "(F - 1) * C + 1"
  define Q where "Q = (v - 1) div ?ps"
  define R where "R = (v - 1) mod ?ps"
  define g where "g = R div F"
  define k where "k = R mod F"
  have F0: "0 < F" using assms(1) by simp
  have ps: "0 < ?ps" using assms by simp
  have "v - 1 = Q * ?ps + R" unfolding Q_def R_def by (rule div_mult_mod_eq[symmetric])
  then have v: "v = Q * ?ps + R + 1" using assms(3) by linarith
  have R: "R = g * F + k" by (simp add: g_def k_def)
  have k: "k < F" using F0 by (simp add: k_def)
  have "R < ?ps" using ps by (simp add: R_def)
  then have g: "g < C" using F0 by (simp add: g_def less_mult_imp_div_less mult.commute)
  show thesis
  proof (cases "1 \<le> g")
    case True
    have "v = Q * ?ps + g * F + k + 1" using v R by simp
    then show ?thesis using fast True g k by blast
  next
    case False
    then have Rk: "R = k" using R by simp
    show ?thesis
    proof (cases "Q = 0")
      case True
      then have "v = k + 1" using v Rk by simp
      then show ?thesis using top k by blast
    next
      case False
      define a where "a = (Q - 1) div ?pl"
      define b where "b = (Q - 1) mod ?pl"
      have "Q - 1 = a * ?pl + b" unfolding a_def b_def by (rule div_mult_mod_eq[symmetric])
      then have "Q = a * ?pl + b + 1" using False by linarith
      then have "v = (a * ?pl + b + 1) * ?ps + k + 1" using v Rk by simp
      moreover have "b < ?pl" by (simp add: b_def)
      ultimately show ?thesis using slow k by blast
    qed
  qed
qed

lemma parent_child_exact:
  assumes "2 \<le> F" "1 \<le> C" "k < F"
  shows "parent_index_exact F C (child_index_exact F C u + k) = u"
proof (cases "C = 1")
  case True
  have "(u * F + k) div F = u" using assms(3) by (rule dm_div)
  then show ?thesis unfolding True child_exact_flat parent_exact_flat by simp
next
  case False
  then have C: "2 \<le> C" using assms(2) by simp
  show ?thesis
  proof (cases "u = 0")
    case True
    then show ?thesis
      using parent_exact_top[OF assms(3), of C] False by (simp add: child_exact_root)
  next
    case False
    then have "1 \<le> u" by simp
    with assms(1) C show ?thesis
    proof (cases rule: child_cases)
      case (fast q r)
      have "parent_index_exact F C (q * (F * C) + (r + 1) * F + k + 1) = q * (F * C) + (r + 1)"
        using assms(1) C _ _ assms(3) by (rule parent_exact_fast) (use fast in simp_all)
      then show ?thesis
        using child_exact_fast[OF assms(1) C fast(2), of q] fast(1) by (simp add: add.assoc)
    next
      case (slow q l)
      have "parent_index_exact F C ((q * ((F - 1) * C + 1) + l + 1) * (F * C) + k + 1)
              = q * (F * C) + C + l"
        using assms(1) C slow(2) assms(3) by (rule parent_exact_slow)
      then show ?thesis
        using child_exact_slow[OF assms(1) C slow(2), of q] slow(1) by (simp add: add.assoc)
    qed
  qed
qed

lemma child_parent_exact:
  assumes "2 \<le> F" "1 \<le> C" "1 \<le> v"
  shows "child_index_exact F C (parent_index_exact F C v) + (v - 1) mod F = v"
proof (cases "C = 1")
  case True
  show ?thesis unfolding True child_exact_flat parent_exact_flat using assms(3) by simp
next
  case False
  then have C: "2 \<le> C" using assms(2) by simp
  from assms(1) C assms(3) show ?thesis
  proof (cases rule: parent_cases)
    case (top k)
    then show ?thesis using False parent_exact_top[of k F C] by (simp add: child_exact_root)
  next
    case (fast q g k)
    obtain r where g: "g = r + 1" using fast(2) by (cases g) auto
    have p: "parent_index_exact F C v = q * (F * C) + r + 1"
      using parent_exact_fast[OF assms(1) C fast(2,3,4), of q] fast(1) g by simp
    have c: "child_index_exact F C (q * (F * C) + r + 1) = q * (F * C) + (r + 1) * F + 1"
      using assms(1) C by (rule child_exact_fast) (use fast(3) g in simp)
    have "(v - 1) mod F = k"
    proof -
      have "v - 1 = (q * C + g) * F + k" using fast(1) by (simp add: algebra_simps)
      then show ?thesis using fast(4) by (simp only: dm_mod)
    qed
    then show ?thesis using p c fast(1) g by simp
  next
    case (slow a b k)
    have p: "parent_index_exact F C v = a * (F * C) + C + b"
      using parent_exact_slow[OF assms(1) C slow(2,3), of a] slow(1) by simp
    have c: "child_index_exact F C (a * (F * C) + C + b)
               = (a * ((F - 1) * C + 1) + b + 1) * (F * C) + 1"
      using assms(1) C slow(2) by (rule child_exact_slow)
    have "(v - 1) mod F = k"
    proof -
      let ?P = "a * ((F - 1) * C + 1) + b + 1"
      have "?P * (F * C) = (?P * C) * F" by (metis mult.assoc mult.commute)
      moreover have "v - 1 = ?P * (F * C) + k" using slow(1) by simp
      ultimately have "v - 1 = (?P * C) * F + k" by (simp only:)
      then show ?thesis using slow(3) by (simp only: dm_mod)
    qed
    then show ?thesis using p c slow(1) by simp
  qed
qed

lemma child_exact_mod:
  assumes "2 \<le> F" "1 \<le> C"
  shows "child_index_exact F C u mod F = 1"
proof -
  have p: "parent_index_exact F C (child_index_exact F C u) = u"
    using parent_child_exact[OF assms, of 0 u] assms(1) by simp
  have pos: "1 \<le> child_index_exact F C u"
    by (auto simp: child_index_exact_def Let_def)
  from child_parent_exact[OF assms pos] p
  have e: "child_index_exact F C u + (child_index_exact F C u - 1) mod F
             = child_index_exact F C u" by simp
  then have "(child_index_exact F C u - 1) mod F = 0" by simp
  then obtain m where "child_index_exact F C u - 1 = F * m"
    by (auto simp: mod_eq_0_iff_dvd elim: dvdE)
  then have "child_index_exact F C u = m * F + 1" using pos by (simp add: mult.commute)
  moreover have "(m * F + 1) mod F = 1" using assms(1) by (intro dm_mod) simp
  ultimately show ?thesis by (simp only:)
qed

lemma child_exact_gt:
  assumes "2 \<le> F" "1 \<le> C"
  shows "u < child_index_exact F C u"
proof (cases "C = 1")
  case True
  have "u * 1 \<le> u * F" using assms(1) by (intro mult_le_mono2) simp
  then show ?thesis unfolding True child_exact_flat by linarith
next
  case False
  then have C: "2 \<le> C" using assms(2) by simp
  show ?thesis
  proof (cases "u = 0")
    case True
    then show ?thesis by (simp add: child_exact_root)
  next
    case False
    then have "1 \<le> u" by simp
    with assms(1) C show ?thesis
    proof (cases rule: child_cases)
      case (fast q r)
      have "(r + 1) * 1 \<le> (r + 1) * F" using assms(1) by (intro mult_le_mono2) simp
      then show ?thesis
        using child_exact_fast[OF assms(1) C fast(2), of q] fast(1) by simp
    next
      case (slow q l)
      let ?pl = "(F - 1) * C + 1" and ?ps = "F * C"
      have "q * 1 \<le> q * ?pl" by (intro mult_le_mono2) simp
      then have "q + l + 1 \<le> q * ?pl + l + 1" by simp
      then have "(q + l + 1) * ?ps \<le> (q * ?pl + l + 1) * ?ps" by (rule mult_le_mono1)
      moreover have "C + l \<le> (l + 1) * ?ps"
      proof -
        have a: "1 * C \<le> F * C" using assms(1) by (intro mult_le_mono1) simp
        have "1 \<le> F * C" using assms(1) C a by linarith
        then have b: "l * 1 \<le> l * ?ps" by (intro mult_le_mono2)
        have "(l + 1) * ?ps = l * ?ps + ?ps" by (simp add: algebra_simps)
        then show ?thesis using a b by linarith
      qed
      ultimately have "q * ?ps + C + l \<le> (q * ?pl + l + 1) * ?ps"
        by (simp add: algebra_simps)
      then show ?thesis
        using child_exact_slow[OF assms(1) C slow(2), of q] slow(1) by simp
    qed
  qed
qed

lemma parent_exact_lt:
  assumes "2 \<le> F" "1 \<le> C" "1 \<le> v"
  shows "parent_index_exact F C v < v"
proof -
  have "parent_index_exact F C v < child_index_exact F C (parent_index_exact F C v)"
    using assms(1,2) by (rule child_exact_gt)
  also have "\<dots> \<le> v" using child_parent_exact[OF assms] by linarith
  finally show ?thesis .
qed


subsection \<open>The index functions of the source and the exact ones\<close>

lemma gci_fast_aux:
  assumes "C \<noteq> 1" "u0 \<noteq> 0" "wmul F C = ps" "wsub u0 1 = u" "wadd (u mod ps) 1 = v"
    "v < ps div F" "wmul v (wsub F 1) = v'" "wsub (wsub SIZE_MAX 2) v' = t"
  shows "get_child_index F C u0 = (if u > t then SIZE_MAX else wadd (wadd u v') 2)"
  using assms by (simp add: get_child_index_def Let_def)

lemma gci_slow_aux:
  assumes "C \<noteq> 1" "u0 \<noteq> 0" "wmul F C = ps" "wsub u0 1 = u" "wadd (u mod ps) 1 = v"
    "\<not> v < ps div F" "wadd (wmul (wsub F 1) C) 1 = pl"
    "wadd v (wsub (wmul (wadd (u div ps) 1) pl) ps) = t"
    "wsub SIZE_MAX 1 div ps = m"
  shows "get_child_index F C u0 = (if t > m then SIZE_MAX else wadd (wmul t ps) 1)"
  using assms by (simp add: get_child_index_def Let_def)

lemma div_less_mult_iff: "0 < (n::nat) \<Longrightarrow> m div n < t \<longleftrightarrow> m < t * n"
  by (simp add: div_less_iff_less_mult)

lemma gci_flat:
  assumes "2 \<le> F" "F \<le> SIZE_MAX"
  shows "get_child_index F 1 u = min (child_index_exact F 1 u) SIZE_MAX"
proof -
  have s: "wsub SIZE_MAX 1 = SIZE_MAX - 1" by (rule wsub_eq) (simp_all add: SIZE_MAX_def)
  have F0: "0 < F" using assms by simp
  have iff: "u > (SIZE_MAX - 1) div F \<longleftrightarrow> u * F + 1 > SIZE_MAX"
    using div_less_mult_iff[OF F0, of "SIZE_MAX - 1" u] by (simp add: SIZE_MAX_def)
  show ?thesis
  proof (cases "u * F + 1 > SIZE_MAX")
    case True
    then show ?thesis unfolding get_child_index_def s child_exact_flat using iff by simp
  next
    case False
    then have le: "u * F + 1 \<le> SIZE_MAX" by simp
    then have m: "wmul u F = u * F" by (intro wmul_eq) simp
    have a: "wadd (u * F) 1 = u * F + 1" using le by (rule wadd_eq)
    show ?thesis unfolding get_child_index_def s child_exact_flat m a
      using False iff le by simp
  qed
qed


lemma gci_paged_fast:
  assumes L: "valid_layout F C" and C: "2 \<le> C" and r: "r + 1 < C"
    and u0: "q * (F * C) + r + 1 \<le> SIZE_MAX"
  shows "get_child_index F C (q * (F * C) + r + 1)
           = min (child_index_exact F C (q * (F * C) + r + 1)) SIZE_MAX"
proof -
  let ?ps = "F * C" and ?n = "q * (F * C) + r + 1" and ?u = "q * (F * C) + r"
  let ?v' = "(r + 1) * (F - 1)"
  note lf = layout_facts[OF L]
  obtain F' where F: "F = Suc F'" using lf(2) by (cases F) auto
  obtain C' where C': "C = Suc C'" using C by (cases C) auto
  have rps: "r < ?ps" using r lf(2) by (simp add: F)
  have v'le: "?v' + 3 \<le> ?ps"
  proof -
    have "(r + 1) * F' \<le> C' * F'" using r by (intro mult_le_mono1) (simp add: C')
    then have "(r + 1) * (F - 1) \<le> C' * F'" by (simp add: F)
    moreover have "1 \<le> F'" "1 \<le> C'" using lf(2) C by (simp_all add: F C')
    moreover have "?ps = C' * F' + F' + C' + 1" by (simp add: F C' algebra_simps)
    ultimately show ?thesis by linarith
  qed
  have e: "child_index_exact F C ?n = ?u + ?v' + 2"
    using child_exact_fast[OF lf(2) C r, of q] by (simp add: F algebra_simps)
  have g: "get_child_index F C ?n
             = (if ?u > SIZE_MAX - 2 - ?v' then SIZE_MAX else wadd (wadd ?u ?v') 2)"
  proof (rule gci_fast_aux)
    show "C \<noteq> 1" using C by simp
    show "?n \<noteq> 0" by simp
    show "wmul F C = ?ps" by (rule lf(4))
    show "wsub ?n 1 = ?u" using u0 by (simp add: wsub_eq)
    show "wadd (?u mod ?ps) 1 = r + 1"
      using rps lf(1) by (simp only: dm_mod) (rule wadd_eq, linarith)
    show "r + 1 < ?ps div F" using r lf(2) by simp
    show "wmul (r + 1) (wsub F 1) = ?v'"
      unfolding lf(5) using v'le lf(1) by (intro wmul_eq) linarith
    show "wsub (wsub SIZE_MAX 2) ?v' = SIZE_MAX - 2 - ?v'"
    proof -
      have "wsub SIZE_MAX 2 = SIZE_MAX - 2" by (rule wsub_eq) (simp_all add: SIZE_MAX_def)
      moreover have "wsub (SIZE_MAX - 2) ?v' = SIZE_MAX - 2 - ?v'"
        using v'le lf(1) by (intro wsub_eq) linarith+
      ultimately show ?thesis by (simp only:)
    qed
  qed
  have v'S: "?v' + 2 \<le> SIZE_MAX" using v'le lf(1) by linarith
  show ?thesis
  proof (cases "?u + ?v' + 2 > SIZE_MAX")
    case True
    then have "?u > SIZE_MAX - 2 - ?v'" using v'S by linarith
    then show ?thesis unfolding g e using True by simp
  next
    case False
    then have n: "\<not> ?u > SIZE_MAX - 2 - ?v'" using v'S by linarith
    have "wadd ?u ?v' = ?u + ?v'" using False by (intro wadd_eq) linarith
    moreover have "wadd (?u + ?v') 2 = ?u + ?v' + 2" using False by (intro wadd_eq) linarith
    ultimately have "wadd (wadd ?u ?v') 2 = ?u + ?v' + 2" by (simp only:)
    then show ?thesis unfolding g e using False n by simp
  qed
qed

lemma gci_paged_slow:
  assumes L: "valid_layout F C" and C: "2 \<le> C" and l: "l < (F - 1) * C + 1"
    and u0: "q * (F * C) + C + l \<le> SIZE_MAX"
  shows "get_child_index F C (q * (F * C) + C + l)
           = min (child_index_exact F C (q * (F * C) + C + l)) SIZE_MAX"
proof -
  let ?ps = "F * C" and ?pl = "(F - 1) * C + 1" and ?n = "q * (F * C) + C + l"
  let ?t = "q * ?pl + l + 1"
  note lf = layout_facts[OF L]
  obtain F' where F: "F = Suc F'" using lf(2) by (cases F) auto
  obtain C' where C': "C = Suc C'" using C by (cases C) auto
  let ?u = "q * ?ps + (C' + l)"
  have rps: "C' + l < ?ps" using l by (simp add: F C')
  have ps0: "0 < ?ps" using lf(2) C by simp
  have plps: "?pl \<le> ?ps" by (rule lf(9))
  have tu: "?t \<le> ?n"
  proof -
    have "q * ?pl \<le> q * ?ps" using plps by (rule mult_le_mono2)
    then show ?thesis using C by linarith
  qed
  have qS: "q + 1 \<le> SIZE_MAX"
  proof -
    have "q * 1 \<le> q * ?ps" using ps0 by (intro mult_le_mono2) simp
    then show ?thesis using u0 C by linarith
  qed
  have e: "child_index_exact F C ?n = ?t * ?ps + 1"
    using lf(2) C l by (rule child_exact_slow)
  have g: "get_child_index F C ?n
             = (if ?t > (SIZE_MAX - 1) div ?ps then SIZE_MAX else wadd (wmul ?t ?ps) 1)"
  proof (rule gci_slow_aux)
    show "C \<noteq> 1" using C by simp
    show "?n \<noteq> 0" using C by simp
    show "wmul F C = ?ps" by (rule lf(4))
    show "wsub ?n 1 = ?u"
    proof -
      have "wsub ?n 1 = ?n - 1" using u0 C by (intro wsub_eq) linarith+
      then show ?thesis by (simp add: C')
    qed
    show "wadd (?u mod ?ps) 1 = C + l"
    proof -
      have "?u mod ?ps = C' + l" using rps by (rule dm_mod)
      moreover have "wadd (C' + l) 1 = C' + l + 1" using rps lf(1) by (intro wadd_eq) linarith
      ultimately show ?thesis by (simp add: C')
    qed
    show "\<not> C + l < ?ps div F" using lf(2) by simp
    show "wadd (wmul (wsub F 1) C) 1 = ?pl" by (rule lf(6))
    show "wadd (C + l) (wsub (wmul (wadd (?u div ?ps) 1) ?pl) ?ps) = ?t"
    proof -
      have d: "?u div ?ps = q" using rps by (rule dm_div)
      have a: "wadd q 1 = q + 1" using qS by (rule wadd_eq)
      have psM: "?ps mod 2 ^ 64 = ?ps" using lf(1) by (simp add: SIZE_MAX_def)
      have "(C + l + (((q + 1) * ?pl) mod 2 ^ 64 + 2 ^ 64 - ?ps) mod 2 ^ 64) mod 2 ^ 64
              = C + l + (q + 1) * ?pl - ?ps"
      proof (rule wrap_sub_add)
        show "?ps \<le> 2 ^ 64" using lf(1) by (simp add: SIZE_MAX_def)
        show "?ps \<le> C + l + (q + 1) * ?pl" by (simp add: F C' algebra_simps)
        have "C + l + (q + 1) * ?pl - ?ps = ?t" by (simp add: F C' algebra_simps)
        then show "C + l + (q + 1) * ?pl - ?ps < 2 ^ 64"
          using tu u0 by (simp add: SIZE_MAX_def)
      qed
      moreover have "C + l + (q + 1) * ?pl - ?ps = ?t" by (simp add: F C' algebra_simps)
      ultimately show ?thesis unfolding d a by (simp only: wadd_def wsub_def wmul_def psM)
    qed
    show "wsub SIZE_MAX 1 div ?ps = (SIZE_MAX - 1) div ?ps"
    proof -
      have "wsub SIZE_MAX 1 = SIZE_MAX - 1" by (rule wsub_eq) (simp_all add: SIZE_MAX_def)
      then show ?thesis by (simp only:)
    qed
  qed
  have iff: "?t > (SIZE_MAX - 1) div ?ps \<longleftrightarrow> ?t * ?ps + 1 > SIZE_MAX"
    using div_less_mult_iff[OF ps0, of "SIZE_MAX - 1" ?t] by (simp add: SIZE_MAX_def)
  show ?thesis
  proof (cases "?t * ?ps + 1 > SIZE_MAX")
    case True
    then show ?thesis unfolding g e using iff by simp
  next
    case False
    have "wmul ?t ?ps = ?t * ?ps" using False by (intro wmul_eq) linarith
    moreover have "wadd (?t * ?ps) 1 = ?t * ?ps + 1" using False by (intro wadd_eq) linarith
    ultimately have "wadd (wmul ?t ?ps) 1 = ?t * ?ps + 1" by (simp only:)
    then show ?thesis unfolding g e using False iff by simp
  qed
qed

lemma get_child_index_exact:
  assumes L: "valid_layout F C" and u: "u \<le> SIZE_MAX"
  shows "get_child_index F C u = min (child_index_exact F C u) SIZE_MAX"
proof (cases "C = 1")
  case True
  show ?thesis unfolding True using layout_facts(2,7)[OF L] by (rule gci_flat)
next
  case False
  note lf = layout_facts[OF L]
  from False lf(3) have C: "2 \<le> C" by simp
  show ?thesis
  proof (cases "u = 0")
    case True
    then show ?thesis using False
      by (simp add: get_child_index_def child_index_exact_def SIZE_MAX_def)
  next
    case False
    then have "1 \<le> u" by simp
    with lf(2) C show ?thesis
    proof (cases rule: child_cases)
      case (fast q r)
      show ?thesis unfolding fast(1) using L C fast(2) u[unfolded fast(1)]
        by (rule gci_paged_fast)
    next
      case (slow q l)
      show ?thesis unfolding slow(1) using L C slow(2) u[unfolded slow(1)]
        by (rule gci_paged_slow)
    qed
  qed
qed


lemma gpi_fast_aux:
  assumes "C \<noteq> 1" "wsub v 1 = u" "\<not> u < F" "wmul F C = ps" "u mod ps = r" "F \<le> r"
    "wadd (wsub u r) (r div F) = R"
  shows "get_parent_index F C v = R"
  using assms by (simp add: get_parent_index_def Let_def)

lemma gpi_slow_aux:
  assumes "C \<noteq> 1" "wsub v 1 = u" "\<not> u < F" "wmul F C = ps" "u mod ps = r" "\<not> F \<le> r"
    "wsub (u div ps) 1 = w" "wadd (wmul (wsub F 1) C) 1 = pl" "wadd (w div pl) 1 = a1"
    "wadd (wsub (wadd (wmul a1 ps) (w mod pl)) pl) 1 = R"
  shows "get_parent_index F C v = R"
  using assms by (simp add: get_parent_index_def Let_def)

lemma get_parent_index_exact:
  assumes L: "valid_layout F C" and v1: "1 \<le> v" and vS: "v \<le> SIZE_MAX"
  shows "get_parent_index F C v = parent_index_exact F C v"
proof -
  note lf = layout_facts[OF L]
  have s: "wsub v 1 = v - 1" using v1 vS by (rule wsub_eq)
  show ?thesis
  proof (cases "C = 1")
    case True
    show ?thesis unfolding True get_parent_index_def parent_index_exact_def s by simp
  next
    case False
    then have C: "2 \<le> C" using lf(3) by simp
    let ?ps = "F * C" and ?pl = "(F - 1) * C + 1"
    have Fps: "F \<le> ?ps" using C by simp
    from lf(2) C v1 show ?thesis
    proof (cases rule: parent_cases)
      case (top k)
      then show ?thesis using False s
        by (simp add: get_parent_index_def parent_index_exact_def)
    next
      case (fast q g k)
      let ?u = "q * ?ps + (g * F + k)"
      have lt: "g * F + k < ?ps"
      proof -
        have "(g + 1) * F \<le> C * F" using fast(3) by (intro mult_le_mono1) simp
        then show ?thesis using fast(4) by (simp add: algebra_simps)
      qed
      have ge: "F \<le> g * F + k" using fast(2) by (cases g) simp_all
      have u: "v - 1 = ?u" using fast(1) by simp
      have "get_parent_index F C v = q * ?ps + g"
      proof (rule gpi_fast_aux)
        show "C \<noteq> 1" by fact
        show "wsub v 1 = ?u" using s u by simp
        show "\<not> ?u < F" using ge by linarith
        show "wmul F C = ?ps" by (rule lf(4))
        show "?u mod ?ps = g * F + k" using lt by (rule dm_mod)
        show "F \<le> g * F + k" by fact
        show "wadd (wsub ?u (g * F + k)) ((g * F + k) div F) = q * ?ps + g"
        proof -
          have "wsub ?u (g * F + k) = ?u - (g * F + k)"
            using vS u v1 by (intro wsub_eq) linarith+
          moreover have "(g * F + k) div F = g" using fast(4) by (rule dm_div)
          moreover have "wadd (q * ?ps) g = q * ?ps + g"
          proof (rule wadd_eq)
            have "g * 1 \<le> g * F" using lf(2) by (intro mult_le_mono2) simp
            then show "q * ?ps + g \<le> SIZE_MAX" using vS u v1 by linarith
          qed
          ultimately show ?thesis by simp
        qed
      qed
      moreover have "parent_index_exact F C v = q * ?ps + g"
        unfolding fast(1) using lf(2) C fast(2,3,4) by (rule parent_exact_fast)
      ultimately show ?thesis by simp
    next
      case (slow a b k)
      let ?P = "a * ?pl + b + 1"
      let ?u = "?P * ?ps + k"
      have kps: "k < ?ps" using slow(3) Fps by (rule less_le_trans)
      have u: "v - 1 = ?u" using slow(1) by simp
      have uS: "?u < SIZE_MAX" using u v1 vS by linarith
      have ps0: "0 < ?ps" using lf(2) C by simp
      have b1: "(a + 1) * ?ps + b \<le> ?P * ?ps"
      proof -
        have "a * 1 \<le> a * ?pl" by (intro mult_le_mono2) simp
        then have "a + b + 1 \<le> ?P" by simp
        then have "(a + b + 1) * ?ps \<le> ?P * ?ps" by (rule mult_le_mono1)
        moreover have "b * 1 \<le> b * ?ps" using ps0 by (intro mult_le_mono2) simp
        moreover have "(a + b + 1) * ?ps = (a + 1) * ?ps + b * ?ps" by (simp add: algebra_simps)
        ultimately show ?thesis by linarith
      qed
      have plps: "?pl \<le> ?ps" by (rule lf(9))
      have "get_parent_index F C v = (a + 1) * ?ps + b - ?pl + 1"
      proof (rule gpi_slow_aux)
        show "C \<noteq> 1" by fact
        show "wsub v 1 = ?u" using s u by simp
        show "\<not> ?u < F"
        proof -
          have "?ps \<le> ?P * ?ps" by simp
          with Fps show ?thesis by linarith
        qed
        show "wmul F C = ?ps" by (rule lf(4))
        show "?u mod ?ps = k" using kps by (rule dm_mod)
        show "\<not> F \<le> k" using slow(3) by simp
        show "wsub (?u div ?ps) 1 = a * ?pl + b"
        proof -
          have "?u div ?ps = ?P" using kps by (rule dm_div)
          moreover have "wsub ?P 1 = ?P - 1"
          proof (rule wsub_eq)
            show "1 \<le> ?P" by simp
            have "?P \<le> ?P * ?ps" using ps0 by (rule le_mult_pos)
            then show "?P \<le> SIZE_MAX" using uS by linarith
          qed
          ultimately show ?thesis by simp
        qed
        show "wadd (wmul (wsub F 1) C) 1 = ?pl" by (rule lf(6))
        show "wadd ((a * ?pl + b) div ?pl) 1 = a + 1"
        proof -
          have "(a * ?pl + b) div ?pl = a" using slow(2) by (rule dm_div)
          moreover have "wadd a 1 = a + 1"
          proof (rule wadd_eq)
            have "a + 1 \<le> (a + 1) * ?ps" using ps0 by (rule le_mult_pos)
            then show "a + 1 \<le> SIZE_MAX" using b1 uS by linarith
          qed
          ultimately show ?thesis by (simp only:)
        qed
        show "wadd (wsub (wadd (wmul (a + 1) ?ps) ((a * ?pl + b) mod ?pl)) ?pl) 1
                = (a + 1) * ?ps + b - ?pl + 1"
        proof -
          have m: "(a * ?pl + b) mod ?pl = b" using slow(2) by (rule dm_mod)
          have 1: "wmul (a + 1) ?ps = (a + 1) * ?ps" using b1 uS by (intro wmul_eq) linarith
          have 2: "wadd ((a + 1) * ?ps) b = (a + 1) * ?ps + b"
            using b1 uS by (intro wadd_eq) linarith
          have "?ps \<le> (a + 1) * ?ps" by simp
          then have 3: "wsub ((a + 1) * ?ps + b) ?pl = (a + 1) * ?ps + b - ?pl"
            using plps b1 uS by (intro wsub_eq) linarith+
          have 4: "wadd ((a + 1) * ?ps + b - ?pl) 1 = (a + 1) * ?ps + b - ?pl + 1"
            using b1 uS by (intro wadd_eq) linarith
          show ?thesis by (simp only: m 1 2 3 4)
        qed
      qed
      moreover have "parent_index_exact F C v = (a + 1) * ?ps + b - ?pl + 1"
        unfolding slow(1)
      proof (rule parent_exact_slow_aux)
        show "C \<noteq> 1" by fact
        show "\<not> ?u < F"
        proof -
          have "?ps \<le> ?P * ?ps" by simp
          with Fps show ?thesis by linarith
        qed
        show "?u mod ?ps = k" using kps by (rule dm_mod)
        show "k < F" by fact
        show "?u div ?ps = ?P" using kps by (rule dm_div)
        show "?P - 1 = a * ?pl + b" by simp
        show "(a * ?pl + b) div ?pl = a" using slow(2) by (rule dm_div)
        show "(a * ?pl + b) mod ?pl = b" using slow(2) by (rule dm_mod)
        show "(a + 1) * ?ps + b - ?pl + 1 = (a + 1) * ?ps + b - ?pl + 1" by (rule refl)
      qed
      ultimately show ?thesis by simp
    qed
  qed
qed


subsection \<open>The tree of the layout\<close>

lemma get_parent_index_less:
  assumes "valid_layout F C" "1 \<le> v" "v \<le> SIZE_MAX"
  shows "get_parent_index F C v < v"
  using parent_exact_lt[OF layout_facts(2,3)[OF assms(1)] assms(2)]
  by (simp add: get_parent_index_exact[OF assms])

lemma get_child_index_greater:
  assumes "valid_layout F C" "u < SIZE_MAX"
  shows "u < get_child_index F C u"
  using child_exact_gt[OF layout_facts(2,3)[OF assms(1)], of u] assms(2)
  by (simp add: get_child_index_exact[OF assms(1)])

lemma wadd_le: "wadd a b \<le> SIZE_MAX"
  by (simp add: wadd_def SIZE_MAX_def)

lemma get_child_index_le: "get_child_index F C u \<le> SIZE_MAX"
proof -
  have "(1::nat) \<le> SIZE_MAX" by (simp add: SIZE_MAX_def)
  then show ?thesis by (simp add: get_child_index_def Let_def wadd_le)
qed

lemma get_child_index_in_range:
  assumes "valid_layout F C" "u \<le> SIZE_MAX" "get_child_index F C u \<noteq> SIZE_MAX"
  shows "get_child_index F C u = child_index_exact F C u"
  using assms(3) by (simp add: get_child_index_exact[OF assms(1,2)] min_def split: if_splits)

lemma parent_of_child:
  assumes L: "valid_layout F C" and u: "u \<le> SIZE_MAX" and k: "k < F"
    and c: "get_child_index F C u \<noteq> SIZE_MAX" and w: "get_child_index F C u + k \<le> SIZE_MAX"
  shows "get_parent_index F C (get_child_index F C u + k) = u"
proof -
  note lf = layout_facts[OF L]
  have e: "get_child_index F C u = child_index_exact F C u"
    using L u c by (rule get_child_index_in_range)
  have "1 \<le> child_index_exact F C u" using child_exact_gt[OF lf(2,3), of u] by linarith
  then have "1 \<le> get_child_index F C u + k" using e by simp
  then have "get_parent_index F C (get_child_index F C u + k)
               = parent_index_exact F C (get_child_index F C u + k)"
    using L w by (intro get_parent_index_exact)
  then show ?thesis using parent_child_exact[OF lf(2,3) k, of u] e by simp
qed

lemma child_of_parent:
  assumes L: "valid_layout F C" and v1: "1 \<le> v" and vS: "v < SIZE_MAX"
  shows "get_child_index F C (get_parent_index F C v) + (v - 1) mod F = v"
proof -
  note lf = layout_facts[OF L]
  have p: "get_parent_index F C v = parent_index_exact F C v"
    using L v1 vS by (intro get_parent_index_exact) simp_all
  have lt: "parent_index_exact F C v < v" using lf(2,3) v1 by (rule parent_exact_lt)
  have cp: "child_index_exact F C (parent_index_exact F C v) + (v - 1) mod F = v"
    using lf(2,3) v1 by (rule child_parent_exact)
  then have "child_index_exact F C (parent_index_exact F C v) < SIZE_MAX" using vS by linarith
  moreover have "parent_index_exact F C v \<le> SIZE_MAX" using lt vS by linarith
  then have "get_child_index F C (parent_index_exact F C v)
          = min (child_index_exact F C (parent_index_exact F C v)) SIZE_MAX"
    using L by (intro get_child_index_exact)
  ultimately show ?thesis using cp p by simp
qed

lemma get_child_index_mod:
  assumes L: "valid_layout F C" and u: "u \<le> SIZE_MAX" and c: "get_child_index F C u \<noteq> SIZE_MAX"
  shows "get_child_index F C u mod F = 1"
  using child_exact_mod[OF layout_facts(2,3)[OF L], of u]
  by (simp add: get_child_index_in_range[OF assms])

section \<open>Claims about the index mapper\<close>

text \<open>
  Claim C5, as stated: for every \<open>Fanout \<ge> 2\<close> and \<open>PageChunks \<ge> 1\<close>, every index \<open>u\<close> and
  every \<open>k\<close> in \<open>[0, Fanout)\<close>, \<open>get_parent_index (get_child_index u + k) = u\<close> whenever
  \<open>get_child_index u\<close> is not the overflow sentinel and \<open>get_child_index u + k\<close> does not wrap
  around. It fails for \<open>Fanout = 2 ^ 63 + 1\<close> and \<open>PageChunks = 2\<close>, a layout outside the
  assertion \<open>PageChunks <= SIZE_MAX / Fanout\<close> of the source, where the page size
  \<open>Fanout * PageChunks\<close> wraps around to \<open>2\<close>: the first child of \<open>u = 1\<close> is computed as \<open>1\<close>,
  which is neither the sentinel nor a wrapped sum, and the parent of \<open>1\<close> is \<open>0\<close>.
\<close>

theorem parent_of_child_index_counterexample:
  "(2 :: nat) \<le> 2 ^ 63 + 1 \<and> (1 :: nat) \<le> 2 \<and> (1 :: nat) \<le> SIZE_MAX \<and> (0 :: nat) < 2 ^ 63 + 1
     \<and> get_child_index (2 ^ 63 + 1) 2 1 = 1
     \<and> get_child_index (2 ^ 63 + 1) 2 1 \<noteq> SIZE_MAX
     \<and> get_child_index (2 ^ 63 + 1) 2 1 + 0 \<le> SIZE_MAX
     \<and> get_parent_index (2 ^ 63 + 1) 2 (wadd (get_child_index (2 ^ 63 + 1) 2 1) 0) = 0
     \<and> get_parent_index (2 ^ 63 + 1) 2 (wadd (get_child_index (2 ^ 63 + 1) 2 1) 0) \<noteq> 1
     \<and> \<not> valid_layout (2 ^ 63 + 1) 2"
proof -
  have c: "get_child_index (2 ^ 63 + 1) 2 1 = 1"
    by (simp add: get_child_index_def wadd_def wsub_def wmul_def SIZE_MAX_def Let_def)
  have p: "get_parent_index (2 ^ 63 + 1) 2 (wadd 1 0) = 0"
    by (simp add: get_parent_index_def wadd_def wsub_def wmul_def SIZE_MAX_def Let_def)
  have v: "\<not> valid_layout (2 ^ 63 + 1) 2" by (simp add: valid_layout_def SIZE_MAX_def)
  show ?thesis unfolding c p using v by (simp add: SIZE_MAX_def)
qed

text \<open>
  Claim C5, amended: for a layout with \<open>Fanout \<ge> 2\<close>, \<open>PageChunks \<ge> 1\<close> and
  \<open>PageChunks \<le> SIZE_MAX div Fanout\<close> (the layouts that the source admits by its assertion),
  every index \<open>u\<close> of \<open>size_t\<close> and every \<open>k\<close> in \<open>[0, Fanout)\<close>:
  if \<open>get_child_index u\<close> is not the overflow sentinel and \<open>get_child_index u + k\<close> does not
  wrap around, then \<open>get_parent_index (get_child_index u + k) = u\<close>. The sum is the one of
  \<open>size_t\<close>.
\<close>

theorem parent_of_child_index:
  assumes "valid_layout Fanout PageChunks"
    and "u \<le> SIZE_MAX"
    and "k < Fanout"
    and "get_child_index Fanout PageChunks u \<noteq> SIZE_MAX"
    and "get_child_index Fanout PageChunks u + k \<le> SIZE_MAX"
  shows "get_parent_index Fanout PageChunks (wadd (get_child_index Fanout PageChunks u) k) = u"
proof -
  have "wadd (get_child_index Fanout PageChunks u) k = get_child_index Fanout PageChunks u + k"
    using assms(5) by (rule wadd_eq)
  then show ?thesis using parent_of_child[OF assms] by simp
qed

theorem parent_of_child_index_witness:
  "valid_layout 3 4 \<and> (5::nat) \<le> SIZE_MAX \<and> (2::nat) < 3 \<and> get_child_index 3 4 5 \<noteq> SIZE_MAX
     \<and> get_child_index 3 4 5 + 2 \<le> SIZE_MAX
     \<and> get_parent_index 3 4 (wadd (get_child_index 3 4 5) 2) = 5"
proof -
  have l: "valid_layout 3 4" by (simp add: valid_layout_def SIZE_MAX_def)
  have c: "get_child_index 3 4 5 = 25"
    by (simp add: get_child_index_def wadd_def wsub_def wmul_def SIZE_MAX_def Let_def)
  have u: "(5::nat) \<le> SIZE_MAX" by (simp add: SIZE_MAX_def)
  have n: "get_child_index 3 4 5 \<noteq> SIZE_MAX" by (simp add: c SIZE_MAX_def)
  have w: "get_child_index 3 4 5 + 2 \<le> SIZE_MAX" by (simp add: c SIZE_MAX_def)
  show ?thesis using parent_of_child_index[of 3 4 5 2] l u n w by simp
qed

text \<open>
  Claim C6, as stated: for \<open>u < SIZE_MAX\<close>, \<open>get_child_index u\<close> is the sentinel \<open>SIZE_MAX\<close>
  exactly when the true first-child index exceeds the range of \<open>size_t\<close>, and is otherwise
  the true first-child index, distinguishable from the sentinel. It fails for the binary
  flat heap at \<open>u = 2 ^ 63 - 1\<close>: the first child is \<open>SIZE_MAX\<close> itself, it fits \<open>size_t\<close>, and
  the function returns it, which is the sentinel.
\<close>

theorem get_child_index_sentinel_counterexample:
  "valid_layout 2 1 \<and> (2 ^ 63 - 1 :: nat) < SIZE_MAX
     \<and> \<not> (get_child_index 2 1 (2 ^ 63 - 1) = SIZE_MAX
            \<longleftrightarrow> child_index_exact 2 1 (2 ^ 63 - 1) > SIZE_MAX)"
  by (simp add: valid_layout_def get_child_index_def child_index_exact_def wadd_def wsub_def
      wmul_def SIZE_MAX_def)

text \<open>
  Claim C6, amended: for a layout that the source admits and \<open>u < SIZE_MAX\<close>,
  \<open>get_child_index u\<close> is the sentinel \<open>SIZE_MAX\<close> exactly when the true first-child index is
  at least \<open>SIZE_MAX\<close> (it exceeds the range of \<open>size_t\<close> or is \<open>SIZE_MAX\<close> itself), and it is
  the true first-child index whenever that index is below \<open>SIZE_MAX\<close>.
\<close>

theorem get_child_index_sentinel:
  assumes "valid_layout Fanout PageChunks" and "u < SIZE_MAX"
  shows "(get_child_index Fanout PageChunks u = SIZE_MAX
            \<longleftrightarrow> child_index_exact Fanout PageChunks u \<ge> SIZE_MAX)
       \<and> (child_index_exact Fanout PageChunks u < SIZE_MAX
            \<longrightarrow> get_child_index Fanout PageChunks u = child_index_exact Fanout PageChunks u)"
proof -
  have "get_child_index Fanout PageChunks u = min (child_index_exact Fanout PageChunks u) SIZE_MAX"
    using assms by (intro get_child_index_exact) simp_all
  then show ?thesis by (auto simp: min_def)
qed

theorem get_child_index_sentinel_witness:
  "valid_layout 3 4 \<and> (5::nat) < SIZE_MAX \<and> child_index_exact 3 4 5 < SIZE_MAX
     \<and> get_child_index 3 4 5 \<noteq> SIZE_MAX \<and> get_child_index 3 4 5 = child_index_exact 3 4 5"
proof -
  have l: "valid_layout 3 4" by (simp add: valid_layout_def SIZE_MAX_def)
  have u: "(5::nat) < SIZE_MAX" by (simp add: SIZE_MAX_def)
  have e: "child_index_exact 3 4 5 < SIZE_MAX"
    by (simp add: child_index_exact_def SIZE_MAX_def Let_def)
  show ?thesis using get_child_index_sentinel[OF l u] l u e by simp
qed

section \<open>The sift engine\<close>


lemma swo_irrefl: "strict_weak_order cmp \<Longrightarrow> \<not> cmp a a"
  by (simp add: strict_weak_order_def)

lemma swo_trans: "strict_weak_order cmp \<Longrightarrow> cmp a b \<Longrightarrow> cmp b c \<Longrightarrow> cmp a c"
  unfolding strict_weak_order_def by blast

lemma swo_asym: "strict_weak_order cmp \<Longrightarrow> cmp a b \<Longrightarrow> \<not> cmp b a"
  unfolding strict_weak_order_def by blast

lemma swo_ntrans: "strict_weak_order cmp \<Longrightarrow> \<not> cmp a b \<Longrightarrow> \<not> cmp b c \<Longrightarrow> \<not> cmp a c"
  unfolding strict_weak_order_def by blast

lemma swo_less_nless: "strict_weak_order cmp \<Longrightarrow> cmp a b \<Longrightarrow> \<not> cmp a c \<Longrightarrow> \<not> cmp b c"
  unfolding strict_weak_order_def by blast

lemma swo_nless_less: "strict_weak_order cmp \<Longrightarrow> \<not> cmp a b \<Longrightarrow> cmp c b \<Longrightarrow> cmp c a"
  unfolding strict_weak_order_def by blast

lemma mset_update_shift:
  assumes "i < length xs" "j < length xs" "i \<noteq> j"
  shows "mset (xs[i := xs ! j, j := v]) = mset (xs[i := v])"
  using assms by (simp add: mset_update nth_list_update)

lemma sift_up_perm:
  assumes L: "valid_layout F C" and len: "length xs \<le> SIZE_MAX" and h: "h < length xs"
  shows "\<exists>ys. sift_up F C cmp xs root h item = Some ys \<and> length ys = length xs
           \<and> mset ys = mset (xs[h := item]) \<and> (\<forall>i. h < i \<longrightarrow> ys ! i = xs ! i)"
  using len h
proof (induction h arbitrary: xs rule: less_induct)
  case (less h)
  show ?case
  proof (cases "root < h")
    case False
    then have "sift_up F C cmp xs root h item = Some (xs[h := item])"
      using less.prems by (subst sift_up.simps) simp
    then show ?thesis using False by auto
  next
    case True
    let ?p = "get_parent_index F C h"
    have p: "?p < h" using L True less.prems by (intro get_parent_index_less) linarith+
    show ?thesis
    proof (cases "cmp (xs ! ?p) item")
      case False
      then have "sift_up F C cmp xs root h item = Some (xs[h := item])"
        using less.prems True p by (subst sift_up.simps) (simp add: Let_def)
      then show ?thesis by auto
    next
      case lt: True
      let ?xs = "xs[h := xs ! ?p]"
      have e: "sift_up F C cmp xs root h item = sift_up F C cmp ?xs root ?p item"
        using less.prems True p lt by (subst sift_up.simps) (simp add: Let_def)
      from less.IH[OF p, of ?xs] less.prems p
      obtain ys where ys: "sift_up F C cmp ?xs root ?p item = Some ys" "length ys = length xs"
        "mset ys = mset (?xs[?p := item])" "\<forall>i. ?p < i \<longrightarrow> ys ! i = ?xs ! i"
        by auto
      have "mset (?xs[?p := item]) = mset (xs[h := item])"
        using less.prems p by (intro mset_update_shift) simp_all
      moreover have "\<forall>i. h < i \<longrightarrow> ys ! i = xs ! i"
        using ys(4) p by auto
      ultimately show ?thesis using e ys by simp
    qed
  qed
qed


lemma descendant_le:
  assumes L: "valid_layout F C" and d: "descendant F C r c" and c: "c \<le> SIZE_MAX"
  shows "r \<le> c"
  using d c
proof (induction rule: descendant.induct)
  case descendant_refl
  show ?case by simp
next
  case (descendant_step c)
  have "get_parent_index F C c < c" using L descendant_step.hyps(2) descendant_step.prems
    by (rule get_parent_index_less)
  then show ?case using descendant_step.IH descendant_step.prems by linarith
qed

lemma descendant_parent:
  assumes "descendant F C r c" "c \<noteq> r"
  shows "descendant F C r (get_parent_index F C c) \<and> 1 \<le> c"
  using assms by (cases rule: descendant.cases) auto

lemma descendant_trans:
  assumes "descendant F C b c" "descendant F C a b"
  shows "descendant F C a c"
  using assms by (induction rule: descendant.induct) (auto intro: descendant.intros)

lemma descendant_root:
  assumes L: "valid_layout F C" and c: "c \<le> SIZE_MAX"
  shows "descendant F C 0 c"
  using c
proof (induction c rule: less_induct)
  case (less c)
  show ?case
  proof (cases "c = 0")
    case True
    then show ?thesis by (simp add: descendant_refl)
  next
    case False
    then have c1: "1 \<le> c" by simp
    have "get_parent_index F C c < c" using L c1 less.prems by (rule get_parent_index_less)
    then have "descendant F C 0 (get_parent_index F C c)" using less.IH less.prems by simp
    then show ?thesis using c1 by (rule descendant_step)
  qed
qed

lemma sift_up_heap:
  assumes L: "valid_layout F C" and swo: "strict_weak_order cmp"
    and len: "length xs \<le> SIZE_MAX" and n: "n \<le> length xs" and h: "h < n"
    and d: "descendant F C root h" and r: "r \<le> root"
    and e1: "\<forall>u. 1 \<le> u \<and> u < n \<and> r \<le> get_parent_index F C u \<and> u \<noteq> h
                 \<and> get_parent_index F C u \<noteq> h
               \<longrightarrow> \<not> cmp (xs ! get_parent_index F C u) (xs ! u)"
    and e2: "\<forall>c. 1 \<le> c \<and> c < n \<and> get_parent_index F C c = h \<longrightarrow> \<not> cmp item (xs ! c)"
    and e3: "root < h \<longrightarrow> (\<forall>c. 1 \<le> c \<and> c < n \<and> get_parent_index F C c = h
               \<longrightarrow> \<not> cmp (xs ! get_parent_index F C h) (xs ! c))"
    and e4: "1 \<le> root \<and> r \<le> get_parent_index F C root
               \<longrightarrow> \<not> cmp (xs ! get_parent_index F C root) item"
    and res: "sift_up F C cmp xs root h item = Some ys"
  shows "heap_from F C cmp ys n r"
  using len n h d e1 e2 e3 e4 res
proof (induction h arbitrary: xs rule: less_induct)
  case (less h)
  note e1 = less.prems(5) and e2 = less.prems(6) and e3 = less.prems(7) and e4 = less.prems(8)
  let ?P = "get_parent_index F C"
  have hS: "h \<le> SIZE_MAX" using less.prems by linarith
  have rh: "root \<le> h" using L less.prems(4) hS by (rule descendant_le)
  have hl: "h < length xs" using less.prems by linarith
  have final: "heap_from F C cmp (xs[h := item]) n r"
    if stop: "root < h \<Longrightarrow> \<not> cmp (xs ! ?P h) item"
  proof (unfold heap_from_def, intro allI impI)
    fix u assume u: "1 \<le> u \<and> u < n \<and> r \<le> ?P u"
    have uS: "u \<le> SIZE_MAX" using u less.prems by linarith
    have pu: "?P u < u" using L u uS by (intro get_parent_index_less) simp_all
    consider (a) "u = h" | (b) "u \<noteq> h" "?P u = h" | (c) "u \<noteq> h" "?P u \<noteq> h" by blast
    then show "\<not> cmp (xs[h := item] ! ?P u) (xs[h := item] ! u)"
    proof cases
      case a
      have "\<not> cmp (xs ! ?P h) item"
      proof (cases "root < h")
        case True
        then show ?thesis by (rule stop)
      next
        case False
        then have "h = root" using rh by simp
        then show ?thesis using e4 u a by simp
      qed
      then show ?thesis using a pu hl by simp
    next
      case b
      then show ?thesis using e2 u hl by simp
    next
      case c
      then show ?thesis using e1 u by simp
    qed
  qed
  show ?case
  proof (cases "root < h")
    case False
    then have "sift_up F C cmp xs root h item = Some (xs[h := item])"
      using hl by (subst sift_up.simps) simp
    then show ?thesis using final False less.prems(9) by simp
  next
    case True
    let ?p = "?P h"
    have h1: "1 \<le> h" using True by simp
    have p: "?p < h" using L h1 hS by (rule get_parent_index_less)
    show ?thesis
    proof (cases "cmp (xs ! ?p) item")
      case False
      then have "sift_up F C cmp xs root h item = Some (xs[h := item])"
        using hl True p by (subst sift_up.simps) (simp add: Let_def)
      then show ?thesis using final False less.prems(9) by simp
    next
      case lt: True
      let ?xs = "xs[h := xs ! ?p]"
      have e: "sift_up F C cmp xs root h item = sift_up F C cmp ?xs root ?p item"
        using hl True p lt by (subst sift_up.simps) (simp add: Let_def)
      have dp: "descendant F C root ?p"
        using descendant_parent[OF less.prems(4)] True by simp
      have rp: "root \<le> ?p" using L dp by (rule descendant_le) (use p hS in linarith)
      have g3: "\<forall>c. 1 \<le> c \<and> c < n \<and> ?P c = h \<longrightarrow> \<not> cmp (xs ! ?p) (xs ! c)"
        using e3 True by simp
      show ?thesis
      proof (rule less.IH[OF p, of ?xs])
        show "length ?xs \<le> SIZE_MAX" using less.prems by simp
        show "n \<le> length ?xs" using less.prems by simp
        show "?p < n" using p less.prems by linarith
        show "descendant F C root ?p" by fact
        show "sift_up F C cmp ?xs root ?p item = Some ys" using e less.prems(9) by simp
        show "\<forall>u. 1 \<le> u \<and> u < n \<and> r \<le> ?P u \<and> u \<noteq> ?p \<and> ?P u \<noteq> ?p
                \<longrightarrow> \<not> cmp (?xs ! ?P u) (?xs ! u)"
        proof (intro allI impI)
          fix u assume u: "1 \<le> u \<and> u < n \<and> r \<le> ?P u \<and> u \<noteq> ?p \<and> ?P u \<noteq> ?p"
          then have uh: "u \<noteq> h" by blast
          show "\<not> cmp (?xs ! ?P u) (?xs ! u)"
          proof (cases "?P u = h")
            case True
            then show ?thesis using g3 u uh hl by simp
          next
            case False
            then show ?thesis using e1 u uh by simp
          qed
        qed
        show "\<forall>c. 1 \<le> c \<and> c < n \<and> ?P c = ?p \<longrightarrow> \<not> cmp item (?xs ! c)"
        proof (intro allI impI)
          fix c assume c: "1 \<le> c \<and> c < n \<and> ?P c = ?p"
          show "\<not> cmp item (?xs ! c)"
          proof (cases "c = h")
            case True
            then show ?thesis using swo_asym[OF swo lt] hl by simp
          next
            case False
            have "\<not> cmp (xs ! ?p) (xs ! c)" using e1[rule_format, of c] c False p rp r by simp
            then have "\<not> cmp item (xs ! c)" using swo_less_nless[OF swo lt] by blast
            then show ?thesis using False by simp
          qed
        qed
        show "root < ?p \<longrightarrow> (\<forall>c. 1 \<le> c \<and> c < n \<and> ?P c = ?p
                \<longrightarrow> \<not> cmp (?xs ! ?P ?p) (?xs ! c))"
        proof (intro allI impI)
          fix c assume rootp: "root < ?p" and c: "1 \<le> c \<and> c < n \<and> ?P c = ?p"
          have p1: "1 \<le> ?p" using rootp by simp
          have pp: "?P ?p < ?p" using L p1 by (rule get_parent_index_less) (use p hS in linarith)
          have dpp: "descendant F C root (?P ?p)"
            using descendant_parent[OF dp] rootp by simp
          have "root \<le> ?P ?p" using L dpp by (rule descendant_le) (use pp p hS in linarith)
          then have gp: "\<not> cmp (xs ! ?P ?p) (xs ! ?p)"
            using e1 p1 p pp r less.prems(3) by simp
          have "\<not> cmp (xs ! ?P ?p) (?xs ! c)"
          proof (cases "c = h")
            case True
            then show ?thesis using gp hl by simp
          next
            case False
            have "\<not> cmp (xs ! ?p) (xs ! c)" using e1[rule_format, of c] c False p rp r by simp
            then show ?thesis using swo_ntrans[OF swo gp] False by simp
          qed
          then show "\<not> cmp (?xs ! ?P ?p) (?xs ! c)" using pp p by simp
        qed
        show "1 \<le> root \<and> r \<le> ?P root \<longrightarrow> \<not> cmp (?xs ! ?P root) item"
        proof
          assume a: "1 \<le> root \<and> r \<le> ?P root"
          have "?P root < root" using L a by (intro get_parent_index_less) (use True hS in simp_all)
          then show "\<not> cmp (?xs ! ?P root) item" using e4 a True by simp
        qed
      qed
    qed
  qed
qed


lemma max_child_offset_spec:
  assumes swo: "strict_weak_order cmp" and cnt: "1 \<le> m"
  shows "max_child_offset cmp xs m c < m
           \<and> (\<forall>t<m. \<not> cmp (xs ! wadd c (max_child_offset cmp xs m c)) (xs ! wadd c t))
           \<and> (\<forall>t. max_child_offset cmp xs m c < t \<and> t < m
                  \<longrightarrow> cmp (xs ! wadd c t) (xs ! wadd c (max_child_offset cmp xs m c)))"
  using cnt
proof (induction m)
  case 0
  then show ?case by simp
next
  case (Suc b)
  let ?f = "\<lambda>t. xs ! wadd c t"
  let ?g = "\<lambda>i j. if \<not> cmp (?f i) (?f j) then i else j"
  show ?case
  proof (cases "b = 0")
    case True
    then show ?thesis using swo_irrefl[OF swo] by (auto simp: max_child_offset_def)
  next
    case False
    then have b1: "1 \<le> b" by simp
    define k where "k = max_child_offset cmp xs b c"
    have IH: "k < b" "\<forall>t<b. \<not> cmp (?f k) (?f t)" "\<forall>t. k < t \<and> t < b \<longrightarrow> cmp (?f t) (?f k)"
      using Suc.IH[OF b1] by (simp_all add: k_def)
    have step: "max_child_offset cmp xs (Suc b) c = ?g b k"
      using b1 by (simp add: max_child_offset_def k_def)
    show ?thesis
    proof (cases "cmp (?f b) (?f k)")
      case True
      then have e: "max_child_offset cmp xs (Suc b) c = k" using step by simp
      have "\<not> cmp (?f k) (?f b)" using swo_asym[OF swo True] .
      then have "\<forall>t<Suc b. \<not> cmp (?f k) (?f t)" using IH(2) by (simp add: less_Suc_eq)
      moreover have "\<forall>t. k < t \<and> t < Suc b \<longrightarrow> cmp (?f t) (?f k)"
        using IH(3) True by (auto simp: less_Suc_eq)
      ultimately show ?thesis unfolding e using IH(1) by simp
    next
      case False
      then have e: "max_child_offset cmp xs (Suc b) c = b" using step by simp
      have "\<forall>t<Suc b. \<not> cmp (?f b) (?f t)"
      proof (intro allI impI)
        fix t assume "t < Suc b"
        then consider "t = b" | "t < b" by linarith
        then show "\<not> cmp (?f b) (?f t)"
        proof cases
          case 1
          then show ?thesis using swo_irrefl[OF swo] by simp
        next
          case 2
          then have "\<not> cmp (?f k) (?f t)" using IH(2) by simp
          then show ?thesis using swo_ntrans[OF swo False] by blast
        qed
      qed
      then show ?thesis unfolding e by auto
    qed
  qed
qed

lemma max_child_offset_less:
  assumes "1 \<le> m"
  shows "max_child_offset cmp xs m c < m"
  using assms
proof (induction m)
  case 0
  then show ?case by simp
next
  case (Suc b)
  show ?case
  proof (cases "b = 0")
    case True
    then show ?thesis by (simp add: max_child_offset_def)
  next
    case False
    then have "max_child_offset cmp xs b c < b" using Suc.IH by simp
    then show ?thesis using False by (simp add: max_child_offset_def)
  qed
qed

lemma max_child_offset_max:
  assumes swo: "strict_weak_order cmp" and m: "1 \<le> m" and c: "c + m \<le> length xs"
    and len: "length xs \<le> SIZE_MAX"
  shows "(\<forall>t<m. \<not> cmp (xs ! (c + max_child_offset cmp xs m c)) (xs ! (c + t)))
       \<and> (\<forall>t. max_child_offset cmp xs m c < t \<and> t < m
              \<longrightarrow> cmp (xs ! (c + t)) (xs ! (c + max_child_offset cmp xs m c)))"
proof -
  have w: "wadd c t = c + t" if "t < m" for t
    using that c len by (intro wadd_eq) linarith
  have j: "max_child_offset cmp xs m c < m" using m by (rule max_child_offset_less)
  show ?thesis using max_child_offset_spec[OF swo m, of xs c] w j by simp
qed

lemma move_up_max_child_eq:
  assumes m: "1 \<le> m" and h: "h < length xs" and c: "c + m \<le> length xs"
    and len: "length xs \<le> SIZE_MAX"
  shows "move_up_max_child cmp xs m h c
           = Some (xs[h := xs ! (c + max_child_offset cmp xs m c)], c + max_child_offset cmp xs m c)"
proof -
  have w: "wadd c t = c + t" if "t < m" for t
    using that c len by (intro wadd_eq) linarith
  have j: "max_child_offset cmp xs m c < m" using m by (rule max_child_offset_less)
  have inr: "\<forall>i\<in>set [1..<m]. wadd c i < length xs"
    using w c by auto
  show ?thesis
    using h c m inr w[OF j] by (simp add: move_up_max_child_def Let_def)
qed

subsection \<open>The groups of children\<close>

lemma child_group_full:
  assumes L: "valid_layout F C" and n: "1 \<le> n" "n \<le> SIZE_MAX" and h: "h < n"
    and lt: "get_child_index F C h < n - (n - 1) mod F"
  shows "get_child_index F C h + F \<le> n - (n - 1) mod F"
proof -
  let ?c = "get_child_index F C h"
  note lf = layout_facts[OF L]
  have "?c \<noteq> SIZE_MAX" using lt n by linarith
  then have "?c mod F = 1" using L h n by (intro get_child_index_mod) linarith+
  then obtain a where a: "?c = a * F + 1"
    by (metis div_mult_mod_eq)
  define q where "q = (n - 1) div F"
  have nq: "n - (n - 1) mod F = q * F + 1"
  proof -
    have "n - 1 = q * F + (n - 1) mod F" unfolding q_def by (rule div_mult_mod_eq[symmetric])
    then show ?thesis using n(1) by linarith
  qed
  have "a * F < q * F" using lt a nq by simp
  then have "a < q" by simp
  then have "(a + 1) * F \<le> q * F" by (intro mult_le_mono1) simp
  then show ?thesis using a nq by (simp add: algebra_simps)
qed

lemma child_group_partial:
  assumes L: "valid_layout F C" and n: "1 \<le> n" "n \<le> SIZE_MAX" and h: "h < n"
    and ge: "n - (n - 1) mod F \<le> get_child_index F C h" and lt: "get_child_index F C h < n"
  shows "get_child_index F C h + (n - 1) mod F = n \<and> 1 \<le> (n - 1) mod F"
proof -
  let ?c = "get_child_index F C h"
  note lf = layout_facts[OF L]
  have F0: "0 < F" using lf(2) by simp
  have "?c \<noteq> SIZE_MAX" using lt n by linarith
  then have "?c mod F = 1" using L h n by (intro get_child_index_mod) linarith+
  then obtain a where a: "?c = a * F + 1"
    by (metis div_mult_mod_eq)
  define q where "q = (n - 1) div F"
  define r where "r = (n - 1) mod F"
  have r: "r < F" using F0 by (simp add: r_def)
  have n1: "n = q * F + r + 1"
  proof -
    have "n - 1 = q * F + r" unfolding q_def r_def by (rule div_mult_mod_eq[symmetric])
    then show ?thesis using n(1) by linarith
  qed
  have ge': "n - r \<le> ?c" using ge by (simp add: r_def)
  have "q * F \<le> a * F" using ge' a n1 by linarith
  then have qa: "q \<le> a" using F0 by simp
  have "a * F < q * F + r" using lt a n1 by linarith
  then have "a * F < (q + 1) * F" using r by simp
  then have "a < q + 1" by (rule mult_less_cancel2[THEN iffD1, THEN conjunct2])
  then have aq: "a = q" using qa by simp
  have "?c + r = n" using a n1 aq by simp
  moreover have "1 \<le> r" using a n1 aq lt by simp
  ultimately show ?thesis by (simp add: r_def)
qed

lemma child_in_group:
  assumes L: "valid_layout F C" and c: "1 \<le> c" "c < n" and n: "n \<le> SIZE_MAX"
  shows "get_child_index F C (get_parent_index F C c) \<le> c
       \<and> c < get_child_index F C (get_parent_index F C c) + F"
proof -
  have F0: "0 < F" using layout_facts(2)[OF L] by simp
  have "get_child_index F C (get_parent_index F C c) + (c - 1) mod F = c"
    using L c(1) by (rule child_of_parent) (use c n in linarith)
  moreover have "(c - 1) mod F < F" using F0 by simp
  ultimately show ?thesis by linarith
qed

lemma group_is_child:
  assumes L: "valid_layout F C" and h: "h < n" and n: "n \<le> SIZE_MAX" and t: "t < F"
    and c: "get_child_index F C h + t < n"
  shows "get_parent_index F C (get_child_index F C h + t) = h \<and> 1 \<le> get_child_index F C h + t
       \<and> h < get_child_index F C h + t"
proof -
  have "get_child_index F C h \<noteq> SIZE_MAX" using c n by linarith
  then have "get_parent_index F C (get_child_index F C h + t) = h"
    using L h n t c by (intro parent_of_child) linarith+
  moreover have "h < get_child_index F C h"
    using L by (rule get_child_index_greater) (use h n in linarith)
  ultimately show ?thesis by linarith
qed


subsection \<open>The loop of \<open>_sift_down\<close>\<close>

lemma sift_down_loop_step:
  assumes L: "valid_layout F C" and len: "length xs \<le> SIZE_MAX" and n: "n \<le> length xs"
    and h: "h < n" and rem: "rem = (n - 1) mod F"
  shows "n \<le> get_child_index F C h
           \<Longrightarrow> sift_down_loop F C cmp xs n rem h = Some (xs, h)"
    and "n - rem \<le> get_child_index F C h \<Longrightarrow> get_child_index F C h < n
           \<Longrightarrow> sift_down_loop F C cmp xs n rem h
               = Some (xs[h := xs ! (get_child_index F C h
                                      + max_child_offset cmp xs rem (get_child_index F C h))],
                       get_child_index F C h
                         + max_child_offset cmp xs rem (get_child_index F C h))"
    and "get_child_index F C h < n - rem
           \<Longrightarrow> sift_down_loop F C cmp xs n rem h
               = sift_down_loop F C cmp
                   (xs[h := xs ! (get_child_index F C h
                                    + max_child_offset cmp xs F (get_child_index F C h))])
                   n rem
                   (get_child_index F C h + max_child_offset cmp xs F (get_child_index F C h))"
proof -
  let ?c = "get_child_index F C h"
  note lf = layout_facts[OF L]
  have n1: "1 \<le> n" and nS: "n \<le> SIZE_MAX" using h n len by linarith+
  have "rem \<le> n - 1" unfolding rem by (rule mod_less_eq_dividend)
  then have rn: "rem \<le> n" by linarith
  have w: "wsub n rem = n - rem" using rn nS by (rule wsub_eq)
  have hl: "h < length xs" using h n by linarith
  {
    assume "n \<le> ?c"
    then have "n - rem \<le> ?c" "\<not> ?c < n" by linarith+
    then show "sift_down_loop F C cmp xs n rem h = Some (xs, h)"
      by (subst sift_down_loop.simps, simp only: Let_def w) simp
  next
    assume ge: "n - rem \<le> ?c" and lt: "?c < n"
    have g: "?c + rem = n \<and> 1 \<le> rem"
      unfolding rem using L n1 nS h ge[unfolded rem] lt by (rule child_group_partial)
    have "move_up_max_child cmp xs rem h ?c
            = Some (xs[h := xs ! (?c + max_child_offset cmp xs rem ?c)],
                    ?c + max_child_offset cmp xs rem ?c)"
      using g hl n len by (intro move_up_max_child_eq) linarith+
    then show "sift_down_loop F C cmp xs n rem h
                 = Some (xs[h := xs ! (?c + max_child_offset cmp xs rem ?c)],
                         ?c + max_child_offset cmp xs rem ?c)"
      using ge lt by (subst sift_down_loop.simps, simp only: Let_def w) simp
  next
    assume lt: "?c < n - rem"
    have g: "?c + F \<le> n - rem"
      unfolding rem using L n1 nS h lt[unfolded rem] by (rule child_group_full)
    have mv: "move_up_max_child cmp xs F h ?c
            = Some (xs[h := xs ! (?c + max_child_offset cmp xs F ?c)],
                    ?c + max_child_offset cmp xs F ?c)"
      using g hl n len lf(2) by (intro move_up_max_child_eq) linarith+
    have nge: "\<not> n - rem \<le> ?c" using lt by linarith
    show "sift_down_loop F C cmp xs n rem h
                 = sift_down_loop F C cmp (xs[h := xs ! (?c + max_child_offset cmp xs F ?c)])
                     n rem (?c + max_child_offset cmp xs F ?c)"
      using nge mv by (subst sift_down_loop.simps, simp only: Let_def w) simp
  }
qed

lemma sift_down_loop_perm:
  assumes L: "valid_layout F C" and len: "length xs \<le> SIZE_MAX" and n: "n \<le> length xs"
    and h: "h < n" and rem: "rem = (n - 1) mod F"
  shows "\<exists>ys h'. sift_down_loop F C cmp xs n rem h = Some (ys, h')
           \<and> length ys = length xs \<and> h' < n \<and> descendant F C h h'
           \<and> (\<forall>item. mset (ys[h' := item]) = mset (xs[h := item]))
           \<and> (\<forall>i. i < h \<or> n \<le> i \<longrightarrow> ys ! i = xs ! i)"
  using len n h
proof (induction "n - h" arbitrary: xs h rule: less_induct)
  case less
  let ?c = "get_child_index F C h"
  note lf = layout_facts[OF L]
  note step = sift_down_loop_step[OF L less.prems rem, of cmp]
  have n1: "1 \<le> n" and nS: "n \<le> SIZE_MAX" using less.prems by linarith+
  have hl: "h < length xs" using less.prems by linarith
  have rF: "rem < F" unfolding rem using lf(2) by simp
  consider (none) "n \<le> ?c" | (partial) "n - rem \<le> ?c" "?c < n" | (full) "?c < n - rem"
    by linarith
  then show ?case
  proof cases
    case none
    have "descendant F C h h" by (rule descendant_refl)
    then show ?thesis using step(1)[OF none] less.prems(3) by simp
  next
    case partial
    let ?j = "max_child_offset cmp xs rem ?c"
    have g: "?c + rem = n \<and> 1 \<le> rem"
      unfolding rem using L n1 nS less.prems(3) partial[unfolded rem] by (rule child_group_partial)
    have j: "?j < rem" using g by (intro max_child_offset_less) simp
    have cj: "?c + ?j < n" using j g by linarith
    have jF: "?j < F" using j rF by linarith
    have pc: "get_parent_index F C (?c + ?j) = h \<and> 1 \<le> ?c + ?j \<and> h < ?c + ?j"
      using L less.prems(3) nS jF cj by (rule group_is_child)
    have d: "descendant F C h (?c + ?j)"
    proof (rule descendant_step)
      show "descendant F C h (get_parent_index F C (?c + ?j))"
        using pc by (simp add: descendant_refl)
      show "1 \<le> ?c + ?j" using pc by simp
    qed
    have m: "mset (xs[h := xs ! (?c + ?j), ?c + ?j := item]) = mset (xs[h := item])" for item
      using hl cj less.prems(2) pc by (intro mset_update_shift) linarith+
    have f: "\<forall>i. i < h \<or> n \<le> i \<longrightarrow> xs[h := xs ! (?c + ?j)] ! i = xs ! i"
      using less.prems(3) by auto
    show ?thesis unfolding step(2)[OF partial] using cj d m f by simp
  next
    case full
    let ?j = "max_child_offset cmp xs F ?c"
    let ?xs = "xs[h := xs ! (?c + ?j)]"
    have g: "?c + F \<le> n - rem"
      unfolding rem using L n1 nS less.prems(3) full[unfolded rem] by (rule child_group_full)
    have j: "?j < F" using lf(2) by (intro max_child_offset_less) simp
    have cj: "?c + ?j < n" using j g by linarith
    have pc: "get_parent_index F C (?c + ?j) = h \<and> 1 \<le> ?c + ?j \<and> h < ?c + ?j"
      using L less.prems(3) nS j cj by (rule group_is_child)
    have d: "descendant F C h (?c + ?j)"
    proof (rule descendant_step)
      show "descendant F C h (get_parent_index F C (?c + ?j))"
        using pc by (simp add: descendant_refl)
      show "1 \<le> ?c + ?j" using pc by simp
    qed
    have m: "mset (?xs[?c + ?j := item]) = mset (xs[h := item])" for item
      using hl cj less.prems(2) pc by (intro mset_update_shift) linarith+
    have "n - (?c + ?j) < n - h" using pc cj by linarith
    from less.hyps[OF this, of ?xs] less.prems cj
    obtain ys h' where r: "sift_down_loop F C cmp ?xs n rem (?c + ?j) = Some (ys, h')"
      "length ys = length xs" "h' < n" "descendant F C (?c + ?j) h'"
      "\<forall>item. mset (ys[h' := item]) = mset (?xs[?c + ?j := item])"
      "\<forall>i. i < ?c + ?j \<or> n \<le> i \<longrightarrow> ys ! i = ?xs ! i"
      by auto
    have "descendant F C h h'" using r(4) d by (rule descendant_trans)
    moreover have "\<forall>i. i < h \<or> n \<le> i \<longrightarrow> ys ! i = xs ! i"
      using r(6) pc less.prems by auto
    ultimately show ?thesis unfolding step(3)[OF full] using r(1,2,3,5) m by simp
  qed
qed


lemma sift_down_move:
  assumes L: "valid_layout F C" and swo: "strict_weak_order cmp"
    and len: "length xs \<le> SIZE_MAX" and n: "n \<le> length xs" and h: "h < n" and r: "r \<le> h"
    and A: "\<forall>u. 1 \<le> u \<and> u < n \<and> r \<le> get_parent_index F C u \<and> u \<noteq> h
                \<and> get_parent_index F C u \<noteq> h
              \<longrightarrow> \<not> cmp (xs ! get_parent_index F C u) (xs ! u)"
    and B: "1 \<le> h \<and> r \<le> get_parent_index F C h
              \<longrightarrow> (\<forall>c. 1 \<le> c \<and> c < n \<and> get_parent_index F C c = h
                     \<longrightarrow> \<not> cmp (xs ! get_parent_index F C h) (xs ! c))"
    and m: "1 \<le> m" "m \<le> F" "get_child_index F C h + m \<le> n"
    and all: "\<forall>c. 1 \<le> c \<and> c < n \<and> get_parent_index F C c = h \<longrightarrow> c < get_child_index F C h + m"
    and k: "k = get_child_index F C h + max_child_offset cmp xs m (get_child_index F C h)"
  shows "\<forall>u. 1 \<le> u \<and> u < n \<and> r \<le> get_parent_index F C u \<and> u \<noteq> k
              \<and> get_parent_index F C u \<noteq> k
            \<longrightarrow> \<not> cmp (xs[h := xs ! k] ! get_parent_index F C u) (xs[h := xs ! k] ! u)"
    and "1 \<le> k \<and> r \<le> get_parent_index F C k
            \<longrightarrow> (\<forall>c. 1 \<le> c \<and> c < n \<and> get_parent_index F C c = k
                   \<longrightarrow> \<not> cmp (xs[h := xs ! k] ! get_parent_index F C k) (xs[h := xs ! k] ! c))"
    and "k < n" and "h < k" and "get_parent_index F C k = h"
proof -
  let ?P = "get_parent_index F C" and ?c = "get_child_index F C h"
  let ?j = "max_child_offset cmp xs m ?c" and ?xs = "xs[h := xs ! k]"
  have nS: "n \<le> SIZE_MAX" using n len by linarith
  have hl: "h < length xs" using h n by linarith
  have j: "?j < m" using m(1) by (rule max_child_offset_less)
  have mx: "\<forall>t<m. \<not> cmp (xs ! (?c + ?j)) (xs ! (?c + t))"
    using max_child_offset_max[OF swo m(1), of ?c xs] m(3) n len by simp
  show kn: "k < n" using k j m(3) by linarith
  have jF: "?j < F" using j m(2) by linarith
  have pk: "?P k = h \<and> 1 \<le> k \<and> h < k"
    unfolding k using L h nS jF kn[unfolded k] by (rule group_is_child)
  then show hk: "h < k" and pkh: "?P k = h" by simp_all
  show "\<forall>u. 1 \<le> u \<and> u < n \<and> r \<le> ?P u \<and> u \<noteq> k \<and> ?P u \<noteq> k
            \<longrightarrow> \<not> cmp (?xs ! ?P u) (?xs ! u)"
  proof (intro allI impI)
    fix u assume u: "1 \<le> u \<and> u < n \<and> r \<le> ?P u \<and> u \<noteq> k \<and> ?P u \<noteq> k"
    have pu: "?P u < u" using L by (rule get_parent_index_less) (use u nS in linarith)+
    consider (a) "u = h" | (b) "u \<noteq> h" "?P u = h" | (c) "u \<noteq> h" "?P u \<noteq> h" by blast
    then show "\<not> cmp (?xs ! ?P u) (?xs ! u)"
    proof cases
      case a
      have "\<not> cmp (xs ! ?P h) (xs ! k)" using B[rule_format, of k] u a pk kn by simp
      then show ?thesis using a pu hl by simp
    next
      case b
      have g: "?c \<le> u \<and> u < ?c + F"
        using child_in_group[OF L, of u n] u nS b(2) by simp
      have "u < ?c + m" using all u b(2) by simp
      then obtain t where t: "u = ?c + t" "t < m" using g by (metis add_diff_inverse_nat nat_add_left_cancel_less not_less)
      then have "\<not> cmp (xs ! k) (xs ! u)" using mx k by simp
      then show ?thesis using b hl by simp
    next
      case c
      then show ?thesis using A u by simp
    qed
  qed
  show "1 \<le> k \<and> r \<le> ?P k
          \<longrightarrow> (\<forall>c. 1 \<le> c \<and> c < n \<and> ?P c = k \<longrightarrow> \<not> cmp (?xs ! ?P k) (?xs ! c))"
  proof (intro allI impI)
    fix c assume c: "1 \<le> c \<and> c < n \<and> ?P c = k"
    have pc: "?P c < c" using L by (rule get_parent_index_less) (use c nS in linarith)+
    then have ch: "c \<noteq> h" using c hk by linarith
    have "\<not> cmp (xs ! k) (xs ! c)" using A[rule_format, of c] c ch hk r by simp
    then show "\<not> cmp (?xs ! ?P k) (?xs ! c)" using pkh ch hl by simp
  qed
qed

lemma no_children_after_partial:
  assumes L: "valid_layout F C" and n: "n \<le> SIZE_MAX" and h: "h < n"
    and g: "get_child_index F C h + (n - 1) mod F = n" and k: "get_child_index F C h \<le> k" "k < n"
  shows "n \<le> get_child_index F C k"
proof (rule ccontr)
  assume "\<not> n \<le> get_child_index F C k"
  then have lt: "get_child_index F C k < n" by simp
  note lf = layout_facts[OF L]
  let ?c = "get_child_index F C h" and ?d = "get_child_index F C k"
  have F0: "0 < F" using lf(2) by simp
  have "?c \<noteq> SIZE_MAX" using k n by linarith
  then have "?c mod F = 1" using L h n by (intro get_child_index_mod) linarith+
  then obtain a where a: "?c = a * F + 1" by (metis div_mult_mod_eq)
  have "?d \<noteq> SIZE_MAX" using lt n by linarith
  then have "?d mod F = 1" using L k n by (intro get_child_index_mod) linarith+
  then obtain b where b: "?d = b * F + 1" by (metis div_mult_mod_eq)
  have "k < ?d" using L by (rule get_child_index_greater) (use k n in linarith)
  then have "a * F < b * F" using k(1) a b by linarith
  then have "a < b" by simp
  then have "(a + 1) * F \<le> b * F" by (intro mult_le_mono1) simp
  then have "?c + F \<le> ?d" using a b by (simp add: algebra_simps)
  moreover have "(n - 1) mod F < F" using F0 by simp
  ultimately show False using g lt by linarith
qed

lemma sift_down_loop_heap:
  assumes L: "valid_layout F C" and swo: "strict_weak_order cmp"
    and len: "length xs \<le> SIZE_MAX" and n: "n \<le> length xs" and h: "h < n"
    and rem: "rem = (n - 1) mod F" and r: "r \<le> h"
    and A: "\<forall>u. 1 \<le> u \<and> u < n \<and> r \<le> get_parent_index F C u \<and> u \<noteq> h
                \<and> get_parent_index F C u \<noteq> h
              \<longrightarrow> \<not> cmp (xs ! get_parent_index F C u) (xs ! u)"
    and B: "1 \<le> h \<and> r \<le> get_parent_index F C h
              \<longrightarrow> (\<forall>c. 1 \<le> c \<and> c < n \<and> get_parent_index F C c = h
                     \<longrightarrow> \<not> cmp (xs ! get_parent_index F C h) (xs ! c))"
    and res: "sift_down_loop F C cmp xs n rem h = Some (ys, h')"
  shows "(\<forall>u. 1 \<le> u \<and> u < n \<and> r \<le> get_parent_index F C u \<and> u \<noteq> h'
               \<and> get_parent_index F C u \<noteq> h'
             \<longrightarrow> \<not> cmp (ys ! get_parent_index F C u) (ys ! u))
       \<and> (\<forall>c. 1 \<le> c \<and> c < n \<longrightarrow> get_parent_index F C c \<noteq> h')"
  using len n h r A B res
proof (induction "n - h" arbitrary: xs h rule: less_induct)
  case less
  let ?P = "get_parent_index F C" and ?c = "get_child_index F C h"
  note lf = layout_facts[OF L]
  note step = sift_down_loop_step[OF L less.prems(1,2,3) rem, of cmp]
  have n1: "1 \<le> n" and nS: "n \<le> SIZE_MAX" using less.prems by linarith+
  have rF: "rem < F" unfolding rem using lf(2) by simp
  have inF: "?c \<le> c \<and> c < ?c + F" if "1 \<le> c \<and> c < n \<and> ?P c = h" for c
    using child_in_group[OF L, of c n] that nS by auto
  consider (none) "n \<le> ?c" | (partial) "n - rem \<le> ?c" "?c < n" | (full) "?c < n - rem"
    by linarith
  then show ?case
  proof cases
    case none
    have e: "ys = xs" "h' = h" using step(1)[OF none] less.prems(7) by simp_all
    have "\<forall>c. 1 \<le> c \<and> c < n \<longrightarrow> ?P c \<noteq> h"
      using inF none by (metis leD le_trans)
    then show ?thesis unfolding e using less.prems(5) by simp
  next
    case partial
    let ?k = "?c + max_child_offset cmp xs rem ?c"
    have g: "?c + rem = n \<and> 1 \<le> rem"
      unfolding rem using L n1 nS less.prems(3) partial[unfolded rem] by (rule child_group_partial)
    have e: "ys = xs[h := xs ! ?k]" "h' = ?k" using step(2)[OF partial] less.prems(7) by simp_all
    have all: "\<forall>c. 1 \<le> c \<and> c < n \<and> ?P c = h \<longrightarrow> c < ?c + rem" using g by simp
    note mv = sift_down_move[OF L swo less.prems(1,2,3,4,5,6) _ _ _ all refl]
    have m: "1 \<le> rem" "rem \<le> F" "?c + rem \<le> n" using g rF by simp_all
    have kn: "?k < n" using mv(3)[OF m] .
    have "n \<le> get_child_index F C ?k"
      using L nS less.prems(3) _ _ kn by (rule no_children_after_partial) (use g rem in simp_all)
    then have "\<forall>c. 1 \<le> c \<and> c < n \<longrightarrow> ?P c \<noteq> ?k"
      using child_in_group[OF L _ _ nS] by (metis leD le_trans)
    then show ?thesis unfolding e using mv(1)[OF m] by simp
  next
    case full
    let ?k = "?c + max_child_offset cmp xs F ?c"
    let ?xs = "xs[h := xs ! ?k]"
    have g: "?c + F \<le> n - rem"
      unfolding rem using L n1 nS less.prems(3) full[unfolded rem] by (rule child_group_full)
    have e: "sift_down_loop F C cmp ?xs n rem ?k = Some (ys, h')"
      using step(3)[OF full] less.prems(7) by simp
    have all: "\<forall>c. 1 \<le> c \<and> c < n \<and> ?P c = h \<longrightarrow> c < ?c + F" using inF by simp
    note mv = sift_down_move[OF L swo less.prems(1,2,3,4,5,6) _ _ _ all refl]
    have m: "1 \<le> F" "F \<le> F" "?c + F \<le> n" using g lf(2) by simp_all
    have kn: "?k < n" and hk: "h < ?k" using mv(3,4)[OF m] .
    have "n - ?k < n - h" using kn hk by linarith
    then show ?thesis
    proof (rule less.hyps[of ?k ?xs])
      show "length ?xs \<le> SIZE_MAX" using less.prems(1) by simp
      show "n \<le> length ?xs" using less.prems(2) by simp
      show "?k < n" by fact
      show "r \<le> ?k" using less.prems(4) hk by linarith
      show "\<forall>u. 1 \<le> u \<and> u < n \<and> r \<le> ?P u \<and> u \<noteq> ?k \<and> ?P u \<noteq> ?k
              \<longrightarrow> \<not> cmp (?xs ! ?P u) (?xs ! u)" using mv(1)[OF m] .
      show "1 \<le> ?k \<and> r \<le> ?P ?k
              \<longrightarrow> (\<forall>c. 1 \<le> c \<and> c < n \<and> ?P c = ?k \<longrightarrow> \<not> cmp (?xs ! ?P ?k) (?xs ! c))"
        using mv(2)[OF m] .
      show "sift_down_loop F C cmp ?xs n rem ?k = Some (ys, h')" by fact
    qed
  qed
qed


subsection \<open>\<open>_sift_down\<close>\<close>

lemma sift_down_perm:
  assumes L: "valid_layout F C" and len: "length xs \<le> SIZE_MAX" and n: "n \<le> length xs"
    and h: "h < n"
  shows "\<exists>ys. sift_down F C cmp xs n h item = Some ys \<and> length ys = length xs
           \<and> mset ys = mset (xs[h := item]) \<and> (\<forall>i. n \<le> i \<longrightarrow> ys ! i = xs ! i)"
proof -
  have w: "wsub n 1 = n - 1" using h n len by (intro wsub_eq) linarith+
  obtain zs h' where z: "sift_down_loop F C cmp xs n ((n - 1) mod F) h = Some (zs, h')"
    "length zs = length xs" "h' < n" "\<forall>item. mset (zs[h' := item]) = mset (xs[h := item])"
    "\<forall>i. i < h \<or> n \<le> i \<longrightarrow> zs ! i = xs ! i"
    using sift_down_loop_perm[OF L len n h refl, of cmp] by blast
  obtain ys where y: "sift_up F C cmp zs h h' item = Some ys" "length ys = length zs"
    "mset ys = mset (zs[h' := item])" "\<forall>i. h' < i \<longrightarrow> ys ! i = zs ! i"
    using sift_up_perm[OF L, of zs h' cmp h item] z(2,3) len n by auto
  have "sift_down F C cmp xs n h item = Some ys"
    unfolding sift_down_def Let_def w using z(1) y(1) by simp
  moreover have "\<forall>i. n \<le> i \<longrightarrow> ys ! i = xs ! i" using y(4) z(3,5) by auto
  ultimately show ?thesis using y(2,3) z(2,4) by simp
qed

lemma sift_down_heap:
  assumes L: "valid_layout F C" and swo: "strict_weak_order cmp"
    and len: "length xs \<le> SIZE_MAX" and n: "n \<le> length xs" and h: "h < n" and r: "r \<le> h"
    and A: "\<forall>u. 1 \<le> u \<and> u < n \<and> r \<le> get_parent_index F C u \<and> u \<noteq> h
                \<and> get_parent_index F C u \<noteq> h
              \<longrightarrow> \<not> cmp (xs ! get_parent_index F C u) (xs ! u)"
    and B: "1 \<le> h \<and> r \<le> get_parent_index F C h
              \<longrightarrow> (\<forall>c. 1 \<le> c \<and> c < n \<and> get_parent_index F C c = h
                     \<longrightarrow> \<not> cmp (xs ! get_parent_index F C h) (xs ! c))"
    and B2: "1 \<le> h \<and> r \<le> get_parent_index F C h
              \<longrightarrow> \<not> cmp (xs ! get_parent_index F C h) item"
    and res: "sift_down F C cmp xs n h item = Some ys"
  shows "heap_from F C cmp ys n r"
proof -
  let ?P = "get_parent_index F C"
  have w: "wsub n 1 = n - 1" using h n len by (intro wsub_eq) linarith+
  obtain zs h' where z: "sift_down_loop F C cmp xs n ((n - 1) mod F) h = Some (zs, h')"
    "length zs = length xs" "h' < n" "descendant F C h h'"
    "\<forall>i. i < h \<or> n \<le> i \<longrightarrow> zs ! i = xs ! i"
    using sift_down_loop_perm[OF L len n h refl, of cmp] by blast
  have up: "sift_up F C cmp zs h h' item = Some ys"
    using res z(1) unfolding sift_down_def Let_def w by simp
  note lh = sift_down_loop_heap[OF L swo len n h refl r A B z(1)]
  show ?thesis
  proof (rule sift_up_heap[OF L swo _ _ z(3,4) r _ _ _ _ up])
    show "length zs \<le> SIZE_MAX" using z(2) len by simp
    show "n \<le> length zs" using z(2) n by simp
    show "\<forall>u. 1 \<le> u \<and> u < n \<and> r \<le> ?P u \<and> u \<noteq> h' \<and> ?P u \<noteq> h'
            \<longrightarrow> \<not> cmp (zs ! ?P u) (zs ! u)" using lh by blast
    show "\<forall>c. 1 \<le> c \<and> c < n \<and> ?P c = h' \<longrightarrow> \<not> cmp item (zs ! c)" using lh by blast
    show "h < h' \<longrightarrow> (\<forall>c. 1 \<le> c \<and> c < n \<and> ?P c = h' \<longrightarrow> \<not> cmp (zs ! ?P h') (zs ! c))"
      using lh by blast
    show "1 \<le> h \<and> r \<le> ?P h \<longrightarrow> \<not> cmp (zs ! ?P h) item"
    proof
      assume a: "1 \<le> h \<and> r \<le> ?P h"
      have "?P h < h" using L by (rule get_parent_index_less) (use a h n len in linarith)+
      then show "\<not> cmp (zs ! ?P h) item" using z(5) B2 a by simp
    qed
  qed
qed

subsection \<open>\<open>is_heap\<close>\<close>

lemma is_heap_until_from_spec:
  assumes L: "valid_layout F C" and len: "length xs \<le> SIZE_MAX" and n: "n \<le> length xs"
    and u: "1 \<le> u"
  shows "\<exists>v. is_heap_until_from F C cmp xs n u = Some v
           \<and> (v = n \<longleftrightarrow> (\<forall>k. u \<le> k \<and> k < n
                              \<longrightarrow> \<not> cmp (xs ! get_parent_index F C k) (xs ! k)))"
  using u
proof (induction "n - u" arbitrary: u rule: less_induct)
  case less
  let ?P = "get_parent_index F C"
  show ?case
  proof (cases "u < n")
    case False
    then have "is_heap_until_from F C cmp xs n u = Some n"
      by (subst is_heap_until_from.simps) simp
    then show ?thesis using False by auto
  next
    case True
    have pu: "?P u < u" using L less.prems by (rule get_parent_index_less) (use True n len in linarith)
    have b: "?P u < length xs \<and> u < length xs" using pu True n by linarith
    show ?thesis
    proof (cases "cmp (xs ! ?P u) (xs ! u)")
      case c: True
      have "is_heap_until_from F C cmp xs n u = Some u"
        using True b c by (subst is_heap_until_from.simps) (simp add: Let_def)
      moreover have "\<not> (\<forall>k. u \<le> k \<and> k < n \<longrightarrow> \<not> cmp (xs ! ?P k) (xs ! k))"
        using c True by blast
      ultimately show ?thesis using True by simp
    next
      case c: False
      have e: "is_heap_until_from F C cmp xs n u = is_heap_until_from F C cmp xs n (u + 1)"
        using True b c by (subst is_heap_until_from.simps) (simp add: Let_def)
      have "n - (u + 1) < n - u" using True by linarith
      from less.hyps[OF this] obtain v where
        v: "is_heap_until_from F C cmp xs n (u + 1) = Some v"
        "v = n \<longleftrightarrow> (\<forall>k. u + 1 \<le> k \<and> k < n \<longrightarrow> \<not> cmp (xs ! ?P k) (xs ! k))"
        by auto
      have "(\<forall>k. u + 1 \<le> k \<and> k < n \<longrightarrow> \<not> cmp (xs ! ?P k) (xs ! k))
              \<longleftrightarrow> (\<forall>k. u \<le> k \<and> k < n \<longrightarrow> \<not> cmp (xs ! ?P k) (xs ! k))"
      proof (intro iffI allI impI)
        fix k
        assume a: "\<forall>k. u + 1 \<le> k \<and> k < n \<longrightarrow> \<not> cmp (xs ! ?P k) (xs ! k)"
          and k: "u \<le> k \<and> k < n"
        show "\<not> cmp (xs ! ?P k) (xs ! k)"
        proof (cases "k = u")
          case True
          then show ?thesis using c by simp
        next
          case False
          then have "u + 1 \<le> k \<and> k < n" using k by linarith
          then show ?thesis using a by blast
        qed
      next
        fix k
        assume a: "\<forall>k. u \<le> k \<and> k < n \<longrightarrow> \<not> cmp (xs ! ?P k) (xs ! k)"
          and k: "u + 1 \<le> k \<and> k < n"
        then have "u \<le> k \<and> k < n" by linarith
        then show "\<not> cmp (xs ! ?P k) (xs ! k)" using a by blast
      qed
      then show ?thesis using e v by simp
    qed
  qed
qed

lemma is_heap_iff:
  assumes L: "valid_layout F C" and len: "length xs \<le> SIZE_MAX" and n: "n \<le> length xs"
  shows "is_heap F C cmp xs n = Some (heap_from F C cmp xs n 0)"
proof -
  obtain v where v: "is_heap_until_from F C cmp xs n 1 = Some v"
    "v = n \<longleftrightarrow> (\<forall>k. 1 \<le> k \<and> k < n \<longrightarrow> \<not> cmp (xs ! get_parent_index F C k) (xs ! k))"
    using is_heap_until_from_spec[OF L len n, of 1 cmp] by auto
  show ?thesis using v by (simp add: is_heap_def is_heap_until_def heap_from_def)
qed

section \<open>The heap algorithms\<close>


subsection \<open>Permutations\<close>

lemma heap_from_mono:
  "heap_from F C cmp xs n r \<Longrightarrow> m \<le> n \<Longrightarrow> r \<le> s \<Longrightarrow> heap_from F C cmp xs m s"
  unfolding heap_from_def by (meson le_trans less_le_trans)

lemma heap_from_cong:
  assumes "heap_from F C cmp xs n r" "\<forall>i<n. ys ! i = xs ! i" "valid_layout F C" "n \<le> SIZE_MAX"
  shows "heap_from F C cmp ys n r"
  unfolding heap_from_def
proof (intro allI impI)
  fix u assume u: "1 \<le> u \<and> u < n \<and> r \<le> get_parent_index F C u"
  have "get_parent_index F C u < u"
    using assms(3) by (rule get_parent_index_less) (use u assms(4) in linarith)+
  then show "\<not> cmp (ys ! get_parent_index F C u) (ys ! u)"
    using assms(1,2) u unfolding heap_from_def by simp
qed

lemma pop_heap_priv_perm:
  assumes L: "valid_layout F C" and len: "length xs \<le> SIZE_MAX" and n: "n \<le> length xs"
    and n2: "2 \<le> n"
  shows "\<exists>ys. pop_heap_priv F C cmp xs n = Some ys \<and> length ys = length xs
           \<and> mset ys = mset xs \<and> (\<forall>i. n \<le> i \<longrightarrow> ys ! i = xs ! i) \<and> ys ! (n - 1) = xs ! 0
           \<and> mset (take (n - 1) ys) + {#xs ! 0#} = mset (take n xs)"
proof -
  let ?xs = "xs[n - 1 := xs ! 0]"
  have w: "wsub n 1 = n - 1" using n2 n len by (intro wsub_eq) linarith+
  have p: "length ?xs \<le> SIZE_MAX" "n - 1 \<le> length ?xs" "0 < n - 1"
    using len n n2 by simp_all
  obtain ys where y: "sift_down F C cmp ?xs (n - 1) 0 (xs ! (n - 1)) = Some ys"
    "length ys = length ?xs" "mset ys = mset (?xs[0 := xs ! (n - 1)])"
    "\<forall>i. n - 1 \<le> i \<longrightarrow> ys ! i = ?xs ! i"
    using sift_down_perm[OF L p, of cmp "xs ! (n - 1)"] by blast
  have b: "n - 1 < length xs" "0 < length xs" using n n2 by linarith+
  have e: "pop_heap_priv F C cmp xs n = Some ys"
    unfolding pop_heap_priv_def Let_def w using y(1) b by simp
  have m: "mset ys = mset xs"
    using y(3) mset_swap[OF b(2) b(1)] by simp
  have f: "\<forall>i. n \<le> i \<longrightarrow> ys ! i = xs ! i" using y(4) n2 by simp
  have l: "ys ! (n - 1) = xs ! 0" using y(4) b by simp
  have dr: "drop n ys = drop n xs"
    using f y(2) by (intro nth_equalityI) simp_all
  have "mset (take n ys) + mset (drop n ys) = mset (take n xs) + mset (drop n xs)"
    using m by (metis append_take_drop_id mset_append)
  then have tk: "mset (take n ys) = mset (take n xs)" using dr by simp
  have "take n ys = take (n - 1) ys @ [ys ! (n - 1)]"
  proof -
    have "n - 1 < length ys" using b y(2) by simp
    then have "take (Suc (n - 1)) ys = take (n - 1) ys @ [ys ! (n - 1)]"
      by (rule take_Suc_conv_app_nth)
    moreover have "Suc (n - 1) = n" using n2 by simp
    ultimately show ?thesis by simp
  qed
  then have "mset (take (n - 1) ys) + {#xs ! 0#} = mset (take n xs)" using tk l by simp
  then show ?thesis using e y(2) m f l by simp
qed


lemma perm_range:
  assumes "length ys = length xs" "mset ys = mset xs" "\<forall>i. n \<le> i \<longrightarrow> ys ! i = xs ! i"
  shows "mset (take n ys) = mset (take n xs) \<and> drop n ys = drop n xs"
proof -
  have dr: "drop n ys = drop n xs"
    using assms(1,3) by (intro nth_equalityI) simp_all
  have "mset (take n ys) + mset (drop n ys) = mset (take n xs) + mset (drop n xs)"
    using assms(2) by (metis append_take_drop_id mset_append)
  then show ?thesis using dr by simp
qed

lemma make_heap_loop_perm:
  assumes L: "valid_layout F C" and len: "length xs \<le> SIZE_MAX" and n: "n \<le> length xs"
    and i: "i < n"
  shows "\<exists>ys. make_heap_loop F C cmp xs n i = Some ys \<and> length ys = length xs
           \<and> mset ys = mset xs \<and> (\<forall>k. n \<le> k \<longrightarrow> ys ! k = xs ! k)"
  using len n i
proof (induction i arbitrary: xs)
  case 0
  obtain ys where y: "sift_down F C cmp xs n 0 (xs ! 0) = Some ys" "length ys = length xs"
    "mset ys = mset (xs[0 := xs ! 0])" "\<forall>i. n \<le> i \<longrightarrow> ys ! i = xs ! i"
    using sift_down_perm[OF L "0.prems", of cmp "xs ! 0"] by blast
  have "0 < length xs" using "0.prems" by linarith
  then show ?case using y by simp
next
  case (Suc i)
  obtain zs where z: "sift_down F C cmp xs n (Suc i) (xs ! Suc i) = Some zs"
    "length zs = length xs" "mset zs = mset (xs[Suc i := xs ! Suc i])"
    "\<forall>i. n \<le> i \<longrightarrow> zs ! i = xs ! i"
    using sift_down_perm[OF L Suc.prems, of cmp "xs ! Suc i"] by blast
  have p: "length zs \<le> SIZE_MAX" "n \<le> length zs" "i < n" using z(2) Suc.prems by simp_all
  obtain ys where y: "make_heap_loop F C cmp zs n i = Some ys" "length ys = length zs"
    "mset ys = mset zs" "\<forall>k. n \<le> k \<longrightarrow> ys ! k = zs ! k"
    using Suc.IH[OF p] by blast
  have "Suc i < length xs" using Suc.prems by linarith
  then show ?case using z y by simp
qed

lemma make_heap_start:
  assumes L: "valid_layout F C" and n2: "2 \<le> n" and nS: "n \<le> SIZE_MAX"
  shows "(if C = 1 then wsub n 2 div F else wsub n 2) < n"
    and "\<forall>u. 1 \<le> u \<and> u < n
           \<longrightarrow> get_parent_index F C u \<le> (if C = 1 then wsub n 2 div F else wsub n 2)"
proof -
  note lf = layout_facts[OF L]
  have w: "wsub n 2 = n - 2" using n2 nS by (rule wsub_eq)
  have "(n - 2) div F \<le> n - 2" by (rule div_le_dividend)
  then have "(n - 2) div F < n" "n - 2 < n" using n2 by linarith+
  then show "(if C = 1 then wsub n 2 div F else wsub n 2) < n" unfolding w by simp
  show "\<forall>u. 1 \<le> u \<and> u < n
           \<longrightarrow> get_parent_index F C u \<le> (if C = 1 then wsub n 2 div F else wsub n 2)"
  proof (intro allI impI)
    fix u assume u: "1 \<le> u \<and> u < n"
    have uS: "u \<le> SIZE_MAX" using u nS by linarith
    show "get_parent_index F C u \<le> (if C = 1 then wsub n 2 div F else wsub n 2)"
    proof (cases "C = 1")
      case True
      have "get_parent_index F C u = (u - 1) div F"
        using get_parent_index_exact[OF L _ uS] u by (simp add: True parent_index_exact_def)
      moreover have "(u - 1) div F \<le> (n - 2) div F" using u by (intro div_le_mono) linarith
      ultimately show ?thesis unfolding w using True by simp
    next
      case False
      have "get_parent_index F C u < u" using L _ uS by (rule get_parent_index_less) (use u in simp)
      then show ?thesis unfolding w using False u by simp
    qed
  qed
qed

lemma make_heap_perm:
  assumes L: "valid_layout F C" and len: "length xs \<le> SIZE_MAX" and n: "n \<le> length xs"
  shows "\<exists>ys. make_heap F C cmp xs n = Some ys \<and> length ys = length xs
           \<and> mset ys = mset xs \<and> (\<forall>k. n \<le> k \<longrightarrow> ys ! k = xs ! k)"
proof (cases "1 < n")
  case False
  then show ?thesis by (simp add: make_heap_def)
next
  case True
  then have n2: "2 \<le> n" by simp
  have nS: "n \<le> SIZE_MAX" using n len by linarith
  let ?i = "if C = 1 then wsub n 2 div F else wsub n 2"
  have "make_heap F C cmp xs n = make_heap_loop F C cmp xs n ?i"
    using True by (simp add: make_heap_def)
  then show ?thesis
    using make_heap_loop_perm[OF L len n make_heap_start(1)[OF L n2 nS], of cmp] by simp
qed

lemma restore_heap_after_item_increase_perm:
  assumes L: "valid_layout F C" and len: "length xs \<le> SIZE_MAX" and i: "i < length xs"
  shows "\<exists>ys. restore_heap_after_item_increase F C cmp xs i = Some ys \<and> length ys = length xs
           \<and> mset ys = mset xs \<and> (\<forall>k. i < k \<longrightarrow> ys ! k = xs ! k)"
proof (cases "0 < i")
  case False
  then show ?thesis by (simp add: restore_heap_after_item_increase_def)
next
  case True
  obtain ys where y: "sift_up F C cmp xs 0 i (xs ! i) = Some ys" "length ys = length xs"
    "mset ys = mset (xs[i := xs ! i])" "\<forall>k. i < k \<longrightarrow> ys ! k = xs ! k"
    using sift_up_perm[OF L len i, of cmp 0 "xs ! i"] by blast
  then show ?thesis using True i by (simp add: restore_heap_after_item_increase_def)
qed

lemma push_heap_eq:
  assumes "n \<le> length xs" "length xs \<le> SIZE_MAX" "1 \<le> n"
  shows "push_heap F C cmp xs n = restore_heap_after_item_increase F C cmp xs (n - 1)"
proof -
  have w: "wsub n 1 = n - 1" using assms by (intro wsub_eq) linarith+
  have "n - 1 < length xs" using assms by linarith
  then show ?thesis
    unfolding push_heap_def restore_heap_after_item_increase_def Let_def w
    using assms(3) by auto
qed

lemma restore_heap_after_item_decrease_perm:
  assumes L: "valid_layout F C" and len: "length xs \<le> SIZE_MAX" and n: "n \<le> length xs"
    and i: "i < n"
  shows "\<exists>ys. restore_heap_after_item_decrease F C cmp xs i n = Some ys
           \<and> length ys = length xs \<and> mset ys = mset xs \<and> (\<forall>k. n \<le> k \<longrightarrow> ys ! k = xs ! k)"
proof -
  obtain ys where y: "sift_down F C cmp xs n i (xs ! i) = Some ys" "length ys = length xs"
    "mset ys = mset (xs[i := xs ! i])" "\<forall>k. n \<le> k \<longrightarrow> ys ! k = xs ! k"
    using sift_down_perm[OF L len n i, of cmp "xs ! i"] by blast
  have "i < length xs" using i n by linarith
  then show ?thesis using y by (simp add: restore_heap_after_item_decrease_def)
qed

lemma remove_from_heap_perm:
  assumes L: "valid_layout F C" and len: "length xs \<le> SIZE_MAX" and n: "n \<le> length xs"
    and i: "i < n"
  shows "\<exists>ys. remove_from_heap F C cmp xs i n = Some ys
           \<and> length ys = length xs \<and> mset ys = mset xs \<and> (\<forall>k. n \<le> k \<longrightarrow> ys ! k = xs ! k)
           \<and> ys ! (n - 1) = xs ! i"
proof -
  have w: "wsub n 1 = n - 1" using i n len by (intro wsub_eq) linarith+
  show ?thesis
  proof (cases "i < n - 1")
    case False
    then have "i = n - 1" using i by linarith
    then show ?thesis unfolding remove_from_heap_def Let_def w by simp
  next
    case True
    let ?xs = "xs[n - 1 := xs ! i]"
    let ?tmp = "xs ! (n - 1)"
    have b: "n - 1 < length xs" "i < length xs" using i n by linarith+
    have p: "length ?xs \<le> SIZE_MAX" "n - 1 \<le> length ?xs" "i < length ?xs"
      using len n i by simp_all
    have sw: "mset (?xs[i := ?tmp]) = mset xs" using mset_swap[OF b(2) b(1)] by simp
    show ?thesis
    proof (cases "cmp ?tmp (?xs ! (n - 1))")
      case c: True
      obtain ys where y: "sift_down F C cmp ?xs (n - 1) i ?tmp = Some ys"
        "length ys = length ?xs" "mset ys = mset (?xs[i := ?tmp])"
        "\<forall>k. n - 1 \<le> k \<longrightarrow> ys ! k = ?xs ! k"
        using sift_down_perm[OF L p(1,2) True, of cmp ?tmp] by blast
      have "remove_from_heap F C cmp xs i n = Some ys"
        unfolding remove_from_heap_def Let_def w using True b c y(1) by simp
      moreover have "\<forall>k. n \<le> k \<longrightarrow> ys ! k = xs ! k" using y(4) True by simp
      moreover have "ys ! (n - 1) = xs ! i" using y(4) b by simp
      ultimately show ?thesis using y(2,3) sw by simp
    next
      case c: False
      obtain ys where y: "sift_up F C cmp ?xs 0 i ?tmp = Some ys"
        "length ys = length ?xs" "mset ys = mset (?xs[i := ?tmp])"
        "\<forall>k. i < k \<longrightarrow> ys ! k = ?xs ! k"
        using sift_up_perm[OF L p(1,3), of cmp 0 ?tmp] by blast
      have "remove_from_heap F C cmp xs i n = Some ys"
        unfolding remove_from_heap_def Let_def w using True b c y(1) by simp
      moreover have "\<forall>k. n \<le> k \<longrightarrow> ys ! k = xs ! k" using y(4) True by simp
      moreover have "ys ! (n - 1) = xs ! i" using y(4) b True by simp
      ultimately show ?thesis using y(2,3) sw by simp
    qed
  qed
qed

lemma sort_heap_loop_perm:
  assumes L: "valid_layout F C" and len: "length xs \<le> SIZE_MAX" and n: "n \<le> length xs"
  shows "\<exists>ys. sort_heap_loop F C cmp xs n = Some ys \<and> length ys = length xs
           \<and> mset ys = mset xs \<and> (\<forall>k. n \<le> k \<longrightarrow> ys ! k = xs ! k)"
  using len n
proof (induction n arbitrary: xs)
  case 0
  then show ?case by (subst sort_heap_loop.simps) simp
next
  case (Suc m)
  show ?case
  proof (cases "1 < Suc m")
    case False
    then show ?thesis by (subst sort_heap_loop.simps) simp
  next
    case True
    then have n2: "2 \<le> Suc m" by simp
    obtain zs where z: "pop_heap_priv F C cmp xs (Suc m) = Some zs" "length zs = length xs"
      "mset zs = mset xs" "\<forall>i. Suc m \<le> i \<longrightarrow> zs ! i = xs ! i"
      using pop_heap_priv_perm[OF L Suc.prems n2, of cmp] by blast
    have p: "length zs \<le> SIZE_MAX" "m \<le> length zs" using z(2) Suc.prems by simp_all
    obtain ys where y: "sort_heap_loop F C cmp zs m = Some ys" "length ys = length zs"
      "mset ys = mset zs" "\<forall>k. m \<le> k \<longrightarrow> ys ! k = zs ! k"
      using Suc.IH[OF p] by blast
    have "sort_heap_loop F C cmp xs (Suc m) = Some ys"
      using True z(1) y(1) by (subst sort_heap_loop.simps) simp
    then show ?thesis using y z by simp
  qed
qed


subsection \<open>The heap property\<close>

lemma make_heap_loop_heap:
  assumes L: "valid_layout F C" and swo: "strict_weak_order cmp"
    and len: "length xs \<le> SIZE_MAX" and n: "n \<le> length xs" and i: "i < n"
    and H: "heap_from F C cmp xs n (Suc i)"
    and res: "make_heap_loop F C cmp xs n i = Some ys"
  shows "heap_from F C cmp ys n 0"
  using len n i H res
proof (induction i arbitrary: xs)
  case 0
  let ?P = "get_parent_index F C"
  have b: "0 < length xs" using "0.prems" by linarith
  have r: "sift_down F C cmp xs n 0 (xs ! 0) = Some ys" using "0.prems"(5) b by simp
  show ?case
  proof (rule sift_down_heap[OF L swo "0.prems"(1,2,3) _ _ _ _ r])
    show "(0::nat) \<le> 0" by simp
    show "\<forall>u. 1 \<le> u \<and> u < n \<and> 0 \<le> ?P u \<and> u \<noteq> 0 \<and> ?P u \<noteq> 0
            \<longrightarrow> \<not> cmp (xs ! ?P u) (xs ! u)"
      using "0.prems"(4) unfolding heap_from_def by simp
    show "1 \<le> (0::nat) \<and> 0 \<le> ?P 0
            \<longrightarrow> (\<forall>c. 1 \<le> c \<and> c < n \<and> ?P c = 0 \<longrightarrow> \<not> cmp (xs ! ?P 0) (xs ! c))" by simp
    show "1 \<le> (0::nat) \<and> 0 \<le> ?P 0 \<longrightarrow> \<not> cmp (xs ! ?P 0) (xs ! 0)" by simp
  qed
next
  case (Suc i)
  let ?P = "get_parent_index F C"
  have b: "Suc i < length xs" using Suc.prems by linarith
  obtain zs where z: "sift_down F C cmp xs n (Suc i) (xs ! Suc i) = Some zs"
    "length zs = length xs"
    using sift_down_perm[OF L Suc.prems(1,2,3), of cmp "xs ! Suc i"] by blast
  have r: "make_heap_loop F C cmp zs n i = Some ys" using Suc.prems(5) b z(1) by simp
  have pl: "?P (Suc i) < Suc i"
    using L by (rule get_parent_index_less) (use Suc.prems in linarith)+
  have "heap_from F C cmp zs n (Suc i)"
  proof (rule sift_down_heap[OF L swo Suc.prems(1,2,3) _ _ _ _ z(1)])
    show "Suc i \<le> Suc i" by simp
    show "\<forall>u. 1 \<le> u \<and> u < n \<and> Suc i \<le> ?P u \<and> u \<noteq> Suc i \<and> ?P u \<noteq> Suc i
            \<longrightarrow> \<not> cmp (xs ! ?P u) (xs ! u)"
      using Suc.prems(4) unfolding heap_from_def by simp
    show "1 \<le> Suc i \<and> Suc i \<le> ?P (Suc i)
            \<longrightarrow> (\<forall>c. 1 \<le> c \<and> c < n \<and> ?P c = Suc i \<longrightarrow> \<not> cmp (xs ! ?P (Suc i)) (xs ! c))"
      using pl by simp
    show "1 \<le> Suc i \<and> Suc i \<le> ?P (Suc i) \<longrightarrow> \<not> cmp (xs ! ?P (Suc i)) (xs ! Suc i)"
      using pl by simp
  qed
  then show ?case using Suc.IH[of zs] z(2) Suc.prems r by simp
qed

lemma make_heap_heap:
  assumes L: "valid_layout F C" and swo: "strict_weak_order cmp"
    and len: "length xs \<le> SIZE_MAX" and n: "n \<le> length xs"
    and res: "make_heap F C cmp xs n = Some ys"
  shows "heap_from F C cmp ys n 0"
proof (cases "1 < n")
  case False
  then show ?thesis by (auto simp: heap_from_def)
next
  case True
  then have n2: "2 \<le> n" by simp
  have nS: "n \<le> SIZE_MAX" using n len by linarith
  let ?i = "if C = 1 then wsub n 2 div F else wsub n 2"
  note st = make_heap_start[OF L n2 nS]
  have r: "make_heap_loop F C cmp xs n ?i = Some ys"
    using True res by (simp add: make_heap_def)
  have H: "heap_from F C cmp xs n (Suc ?i)"
    unfolding heap_from_def using st(2) by (meson Suc_le_eq leD)
  show ?thesis using L swo len n st(1) H r by (rule make_heap_loop_heap)
qed

lemma no_child_in_range:
  assumes L: "valid_layout F C" and c: "1 \<le> c" "c \<le> SIZE_MAX" "c \<le> h"
  shows "get_parent_index F C c \<noteq> h"
  using get_parent_index_less[OF L c(1,2)] c(3) by linarith

lemma restore_heap_after_item_increase_heap:
  assumes L: "valid_layout F C" and swo: "strict_weak_order cmp"
    and len: "length xs \<le> SIZE_MAX" and i: "i < length xs"
    and H: "heap_from F C cmp xs i 0"
    and res: "restore_heap_after_item_increase F C cmp xs i = Some ys"
  shows "heap_from F C cmp ys (Suc i) 0"
proof (cases "0 < i")
  case False
  then show ?thesis by (simp add: heap_from_def)
next
  case True
  let ?P = "get_parent_index F C"
  have r: "sift_up F C cmp xs 0 i (xs ! i) = Some ys"
    using res True i by (simp add: restore_heap_after_item_increase_def)
  have iS: "i \<le> SIZE_MAX" using i len by linarith
  have nc: "?P c \<noteq> i" if "1 \<le> c \<and> c < Suc i" for c
    using L by (rule no_child_in_range) (use that iS in linarith)+
  show ?thesis
  proof (rule sift_up_heap[OF L swo len _ _ _ _ _ _ _ _ r])
    show "Suc i \<le> length xs" using i by simp
    show "i < Suc i" by simp
    show "descendant F C 0 i" using L iS by (rule descendant_root)
    show "(0::nat) \<le> 0" by simp
    show "\<forall>u. 1 \<le> u \<and> u < Suc i \<and> 0 \<le> ?P u \<and> u \<noteq> i \<and> ?P u \<noteq> i
            \<longrightarrow> \<not> cmp (xs ! ?P u) (xs ! u)"
      using H unfolding heap_from_def by simp
    show "\<forall>c. 1 \<le> c \<and> c < Suc i \<and> ?P c = i \<longrightarrow> \<not> cmp (xs ! i) (xs ! c)" using nc by blast
    show "0 < i \<longrightarrow> (\<forall>c. 1 \<le> c \<and> c < Suc i \<and> ?P c = i \<longrightarrow> \<not> cmp (xs ! ?P i) (xs ! c))"
      using nc by blast
    show "1 \<le> (0::nat) \<and> 0 \<le> ?P 0 \<longrightarrow> \<not> cmp (xs ! ?P 0) (xs ! i)" by simp
  qed
qed

lemma pop_heap_priv_heap:
  assumes L: "valid_layout F C" and swo: "strict_weak_order cmp"
    and len: "length xs \<le> SIZE_MAX" and n: "n \<le> length xs" and n2: "2 \<le> n"
    and H: "heap_from F C cmp xs n 0"
    and res: "pop_heap_priv F C cmp xs n = Some ys"
  shows "heap_from F C cmp ys (n - 1) 0"
proof -
  let ?P = "get_parent_index F C"
  let ?xs = "xs[n - 1 := xs ! 0]"
  have w: "wsub n 1 = n - 1" using n2 n len by (intro wsub_eq) linarith+
  have b: "n - 1 < length xs" "0 < length xs" using n n2 by linarith+
  have r: "sift_down F C cmp ?xs (n - 1) 0 (xs ! (n - 1)) = Some ys"
    using res b unfolding pop_heap_priv_def Let_def w by simp
  have p: "length ?xs \<le> SIZE_MAX" "n - 1 \<le> length ?xs" "0 < n - 1"
    using len n n2 by simp_all
  show ?thesis
  proof (rule sift_down_heap[OF L swo p _ _ _ _ r])
    show "(0::nat) \<le> 0" by simp
    show "\<forall>u. 1 \<le> u \<and> u < n - 1 \<and> 0 \<le> ?P u \<and> u \<noteq> 0 \<and> ?P u \<noteq> 0
            \<longrightarrow> \<not> cmp (?xs ! ?P u) (?xs ! u)"
    proof (intro allI impI)
      fix u assume u: "1 \<le> u \<and> u < n - 1 \<and> 0 \<le> ?P u \<and> u \<noteq> 0 \<and> ?P u \<noteq> 0"
      have un: "1 \<le> u \<and> u < n" using u by linarith
      have "?P u < u" using L by (rule get_parent_index_less) (use u n len in linarith)+
      moreover have "\<not> cmp (xs ! ?P u) (xs ! u)" using H un unfolding heap_from_def by simp
      ultimately show "\<not> cmp (?xs ! ?P u) (?xs ! u)" using u by simp
    qed
    show "1 \<le> (0::nat) \<and> 0 \<le> ?P 0
            \<longrightarrow> (\<forall>c. 1 \<le> c \<and> c < n - 1 \<and> ?P c = 0 \<longrightarrow> \<not> cmp (?xs ! ?P 0) (?xs ! c))"
      by simp
    show "1 \<le> (0::nat) \<and> 0 \<le> ?P 0 \<longrightarrow> \<not> cmp (?xs ! ?P 0) (xs ! (n - 1))" by simp
  qed
qed

lemma restore_heap_after_item_decrease_heap:
  assumes L: "valid_layout F C" and swo: "strict_weak_order cmp"
    and len: "length xs \<le> SIZE_MAX" and n: "n \<le> length xs" and i: "i < n"
    and H: "heap_from F C cmp (xs[i := old]) n 0" and dec: "\<not> cmp old (xs ! i)"
    and res: "restore_heap_after_item_decrease F C cmp xs i n = Some ys"
  shows "heap_from F C cmp ys n 0"
proof -
  let ?P = "get_parent_index F C"
  have il: "i < length xs" using i n by linarith
  have r: "sift_down F C cmp xs n i (xs ! i) = Some ys"
    using res il by (simp add: restore_heap_after_item_decrease_def)
  have nS: "n \<le> SIZE_MAX" using n len by linarith
  have E: "\<not> cmp (xs[i := old] ! ?P u) (xs[i := old] ! u)" if "1 \<le> u \<and> u < n" for u
    using H that unfolding heap_from_def by simp
  have up: "\<not> cmp (xs ! ?P i) old" if "1 \<le> i"
  proof -
    have "?P i < i" using L that by (rule get_parent_index_less) (use i nS in linarith)
    then show ?thesis using E[of i] that i il by simp
  qed
  show ?thesis
  proof (rule sift_down_heap[OF L swo len n i _ _ _ _ r])
    show "0 \<le> i" by simp
    show "\<forall>u. 1 \<le> u \<and> u < n \<and> 0 \<le> ?P u \<and> u \<noteq> i \<and> ?P u \<noteq> i
            \<longrightarrow> \<not> cmp (xs ! ?P u) (xs ! u)"
      using E by force
    show "1 \<le> i \<and> 0 \<le> ?P i
            \<longrightarrow> (\<forall>c. 1 \<le> c \<and> c < n \<and> ?P c = i \<longrightarrow> \<not> cmp (xs ! ?P i) (xs ! c))"
    proof (intro allI impI)
      fix c assume a: "1 \<le> i \<and> 0 \<le> ?P i" and c: "1 \<le> c \<and> c < n \<and> ?P c = i"
      have "?P c < c" using L by (rule get_parent_index_less) (use c nS in linarith)+
      then have "c \<noteq> i" using c by linarith
      then have "\<not> cmp old (xs ! c)" using E[of c] c il by simp
      then show "\<not> cmp (xs ! ?P i) (xs ! c)" using swo_ntrans[OF swo up] a by blast
    qed
    show "1 \<le> i \<and> 0 \<le> ?P i \<longrightarrow> \<not> cmp (xs ! ?P i) (xs ! i)"
      using swo_ntrans[OF swo up dec] by simp
  qed
qed

lemma remove_from_heap_heap:
  assumes L: "valid_layout F C" and swo: "strict_weak_order cmp"
    and len: "length xs \<le> SIZE_MAX" and n: "n \<le> length xs" and i: "i < n"
    and H: "heap_from F C cmp xs n 0"
    and res: "remove_from_heap F C cmp xs i n = Some ys"
  shows "heap_from F C cmp ys (n - 1) 0"
proof -
  let ?P = "get_parent_index F C"
  have w: "wsub n 1 = n - 1" using i n len by (intro wsub_eq) linarith+
  have nS: "n \<le> SIZE_MAX" using n len by linarith
  show ?thesis
  proof (cases "i < n - 1")
    case False
    then have "ys = xs" using res unfolding remove_from_heap_def Let_def w by simp
    then show ?thesis using H by (auto intro: heap_from_mono)
  next
    case True
    let ?xs = "xs[n - 1 := xs ! i]"
    let ?tmp = "xs ! (n - 1)"
    have b: "n - 1 < length xs" "i < length xs" using i n by linarith+
    have p: "length ?xs \<le> SIZE_MAX" "n - 1 \<le> length ?xs" using len n by simp_all
    have E: "\<not> cmp (xs ! ?P u) (xs ! u)" if "1 \<le> u \<and> u < n" for u
      using H that unfolding heap_from_def by simp
    have pl: "?P u < u" if "1 \<le> u \<and> u < n" for u
      using L by (rule get_parent_index_less) (use that nS in linarith)+
    have A: "\<forall>u. 1 \<le> u \<and> u < n - 1 \<and> 0 \<le> ?P u \<and> u \<noteq> i \<and> ?P u \<noteq> i
               \<longrightarrow> \<not> cmp (?xs ! ?P u) (?xs ! u)"
    proof (intro allI impI)
      fix u assume u: "1 \<le> u \<and> u < n - 1 \<and> 0 \<le> ?P u \<and> u \<noteq> i \<and> ?P u \<noteq> i"
      then have un: "1 \<le> u \<and> u < n" by linarith
      have "?P u < u" "\<not> cmp (xs ! ?P u) (xs ! u)" using pl[OF un] E[OF un] by simp_all
      then show "\<not> cmp (?xs ! ?P u) (?xs ! u)" using u by simp
    qed
    have ch: "\<not> cmp (xs ! i) (?xs ! c)" if "1 \<le> c \<and> c < n - 1 \<and> ?P c = i" for c
    proof -
      have "1 \<le> c \<and> c < n" using that by linarith
      then show ?thesis using E[of c] that by simp
    qed
    have Bc: "\<not> cmp (?xs ! ?P i) (?xs ! c)"
      if "1 \<le> i" "1 \<le> c \<and> c < n - 1 \<and> ?P c = i" for c
    proof -
      have "\<not> cmp (xs ! ?P i) (xs ! i)" using E[of i] that(1) i by simp
      then have "\<not> cmp (xs ! ?P i) (?xs ! c)" using swo_ntrans[OF swo _ ch[OF that(2)]] by blast
      then show ?thesis using pl[of i] that(1) i True by simp
    qed
    show ?thesis
    proof (cases "cmp ?tmp (?xs ! (n - 1))")
      case c: True
      then have lt: "cmp ?tmp (xs ! i)" using b by simp
      have r: "sift_down F C cmp ?xs (n - 1) i ?tmp = Some ys"
        using res True b c unfolding remove_from_heap_def Let_def w by simp
      show ?thesis
      proof (rule sift_down_heap[OF L swo p True _ A _ _ r])
        show "0 \<le> i" by simp
        show "1 \<le> i \<and> 0 \<le> ?P i
                \<longrightarrow> (\<forall>c. 1 \<le> c \<and> c < n - 1 \<and> ?P c = i \<longrightarrow> \<not> cmp (?xs ! ?P i) (?xs ! c))"
          using Bc by blast
        show "1 \<le> i \<and> 0 \<le> ?P i \<longrightarrow> \<not> cmp (?xs ! ?P i) ?tmp"
        proof
          assume a: "1 \<le> i \<and> 0 \<le> ?P i"
          have "\<not> cmp (xs ! ?P i) (xs ! i)" using E[of i] a i by simp
          then have "\<not> cmp (xs ! ?P i) ?tmp" using swo_trans[OF swo _ lt] by blast
          then show "\<not> cmp (?xs ! ?P i) ?tmp" using pl[of i] a i True by simp
        qed
      qed
    next
      case c: False
      then have nlt: "\<not> cmp ?tmp (xs ! i)" using b by simp
      have r: "sift_up F C cmp ?xs 0 i ?tmp = Some ys"
        using res True b c unfolding remove_from_heap_def Let_def w by simp
      show ?thesis
      proof (rule sift_up_heap[OF L swo p True _ _ A _ _ _ r])
        show "descendant F C 0 i" using L by (rule descendant_root) (use i nS in linarith)
        show "(0::nat) \<le> 0" by simp
        show "\<forall>c. 1 \<le> c \<and> c < n - 1 \<and> ?P c = i \<longrightarrow> \<not> cmp ?tmp (?xs ! c)"
          using swo_ntrans[OF swo nlt] ch by blast
        show "0 < i \<longrightarrow> (\<forall>c. 1 \<le> c \<and> c < n - 1 \<and> ?P c = i \<longrightarrow> \<not> cmp (?xs ! ?P i) (?xs ! c))"
          using Bc by simp
        show "1 \<le> (0::nat) \<and> 0 \<le> ?P 0 \<longrightarrow> \<not> cmp (?xs ! ?P 0) ?tmp" by simp
      qed
    qed
  qed
qed


lemma heap_root_max:
  assumes L: "valid_layout F C" and swo: "strict_weak_order cmp"
    and H: "heap_from F C cmp xs n 0" and n: "n \<le> SIZE_MAX" and i: "i < n"
  shows "\<not> cmp (xs ! 0) (xs ! i)"
  using i
proof (induction i rule: less_induct)
  case (less i)
  show ?case
  proof (cases "i = 0")
    case True
    then show ?thesis using swo_irrefl[OF swo] by simp
  next
    case False
    then have i1: "1 \<le> i" by simp
    have p: "get_parent_index F C i < i"
      using L i1 by (rule get_parent_index_less) (use less.prems n in linarith)
    have "\<not> cmp (xs ! 0) (xs ! get_parent_index F C i)" using less.IH[OF p] p less.prems by simp
    moreover have "\<not> cmp (xs ! get_parent_index F C i) (xs ! i)"
      using H i1 less.prems unfolding heap_from_def by simp
    ultimately show ?thesis by (rule swo_ntrans[OF swo])
  qed
qed

lemma is_heap_True:
  assumes "valid_layout F C" "length xs \<le> SIZE_MAX" "n \<le> length xs"
  shows "is_heap F C cmp xs n = Some True \<longleftrightarrow> heap_from F C cmp xs n 0"
  by (simp add: is_heap_iff[OF assms])

lemma pop_heap_eq:
  "1 < n \<Longrightarrow> pop_heap F C cmp xs n = pop_heap_priv F C cmp xs n"
  "\<not> 1 < n \<Longrightarrow> pop_heap F C cmp xs n = Some xs"
  by (simp_all add: pop_heap_def)

lemma pop_heap_spec:
  assumes "valid_layout Fanout PageChunks" and "strict_weak_order less_comparer"
    and "length first \<le> SIZE_MAX" and "last_off \<le> length first" and "1 < last_off"
    and "is_heap Fanout PageChunks less_comparer first last_off = Some True"
  shows "\<exists>first'. pop_heap Fanout PageChunks less_comparer first last_off = Some first'
           \<and> is_heap Fanout PageChunks less_comparer first' (last_off - 1) = Some True
           \<and> first' ! (last_off - 1) = first ! 0
           \<and> (\<forall>i<last_off. \<not> less_comparer (first' ! (last_off - 1)) (first ! i))
           \<and> length first' = length first
           \<and> mset (take last_off first') = mset (take last_off first)"
proof -
  have n2: "2 \<le> last_off" using assms(5) by simp
  have H: "heap_from Fanout PageChunks less_comparer first last_off 0"
    using assms(6) is_heap_True[OF assms(1,3,4)] by simp
  obtain ys where y: "pop_heap_priv Fanout PageChunks less_comparer first last_off = Some ys"
    "length ys = length first" "mset ys = mset first"
    "\<forall>i. last_off \<le> i \<longrightarrow> ys ! i = first ! i" "ys ! (last_off - 1) = first ! 0"
    using pop_heap_priv_perm[OF assms(1,3,4) n2, of less_comparer] by blast
  have "heap_from Fanout PageChunks less_comparer ys (last_off - 1) 0"
    using assms(1,2,3,4) n2 H y(1) by (rule pop_heap_priv_heap)
  then have h: "is_heap Fanout PageChunks less_comparer ys (last_off - 1) = Some True"
    using is_heap_True[OF assms(1), of ys "last_off - 1"] y(2) assms(3,4) by simp
  have mx: "\<forall>i<last_off. \<not> less_comparer (first ! 0) (first ! i)"
    using heap_root_max[OF assms(1,2) H] assms(3,4) by simp
  have m: "mset (take last_off ys) = mset (take last_off first)"
    using perm_range[OF y(2,3,4)] by simp
  have e: "pop_heap Fanout PageChunks less_comparer first last_off = Some ys"
    by (simp add: pop_heap_eq(1)[OF assms(5)] y(1))
  have mx': "\<forall>i<last_off. \<not> less_comparer (ys ! (last_off - 1)) (first ! i)"
    using mx y(5) by simp
  show ?thesis using e h y(2,5) mx' m by blast
qed

lemma make_heap_loop_2:
  "make_heap_loop F C cmp xs n 2 =
     (if 2 < length xs then
        Option.bind (sift_down F C cmp xs n 2 (xs ! 2)) (\<lambda>ys. make_heap_loop F C cmp ys n 1)
      else None)"
  using make_heap_loop.simps(2)[of F C cmp xs n 1] by (simp add: numeral_2_eq_2)

section \<open>Claims about the heap algorithms\<close>

text \<open>
  Claim C1, as stated: for every \<open>Fanout \<ge> 2\<close> and \<open>PageChunks \<ge> 1\<close>, every range and every
  strict weak order satisfying the stated precondition of the operation, each heap-mutating
  operation leaves \<open>is_heap\<close> true over the affected range. It fails in two ways.
  The stated precondition of \<open>restore_heap_after_item_decrease\<close> (the items before \<open>item\<close> are
  a heap, and the key of \<open>item\<close> has decreased) is not enough: on \<open>1, 5, 3, 9\<close> with
  \<open>item = first\<close>, whose key has decreased from \<open>10\<close>, the call leaves \<open>5, 9, 3, 1\<close>, which is
  not a heap. And outside the assertion \<open>PageChunks <= SIZE_MAX / Fanout\<close> of the source the
  operations have no defined result: with \<open>Fanout = 2 ^ 63 + 1\<close> and \<open>PageChunks = 2\<close>,
  \<open>make_heap\<close> on four items reads items past the end of the range.
\<close>

theorem heap_operations_restore_is_heap_counterexample:
  "strict_weak_order ((<) :: nat \<Rightarrow> nat \<Rightarrow> bool)
     \<and> (0 :: nat) < 4 \<and> (4 :: nat) \<le> length [1, 5, 3, 9 :: nat]
     \<and> is_heap 2 1 (<) [1, 5, 3, 9 :: nat] 0 = Some True
     \<and> [1, 5, 3, 9 :: nat] ! 0 < 10
     \<and> restore_heap_after_item_decrease 2 1 (<) [1, 5, 3, 9 :: nat] 0 4 = Some [5, 9, 3, 1]
     \<and> is_heap 2 1 (<) [5, 9, 3, 1 :: nat] 4 = Some False
     \<and> (2 :: nat) \<le> 2 ^ 63 + 1 \<and> (1 :: nat) \<le> 2
     \<and> make_heap (2 ^ 63 + 1) 2 (<) [1, 2, 3, 4 :: nat] 4 = None"
proof -
  have s: "strict_weak_order ((<) :: nat \<Rightarrow> nat \<Rightarrow> bool)"
    by (auto simp: strict_weak_order_def)
  have h0: "is_heap 2 1 (<) [1, 5, 3, 9 :: nat] 0 = Some True"
    by (simp add: is_heap_def is_heap_until_def is_heap_until_from.simps)
  have c0: "get_child_index 2 1 0 = 1" and c1: "get_child_index 2 1 1 = 3"
    by (simp_all add: get_child_index_def wadd_def wsub_def wmul_def SIZE_MAX_def)
  have l1: "sift_down_loop 2 1 (<) [5, 5, 3, 9 :: nat] 4 1 1 = Some ([5, 9, 3, 9], 3)"
    apply (subst sift_down_loop.simps)
    using c1
    by (simp add: move_up_max_child_def max_child_offset_def wsub_def wadd_def upt_conv_Cons
        Let_def)
  have l0: "sift_down_loop 2 1 (<) [1, 5, 3, 9 :: nat] 4 1 0 = Some ([5, 9, 3, 9], 3)"
    apply (subst sift_down_loop.simps)
    using c0 l1
    by (simp add: move_up_max_child_def max_child_offset_def wsub_def wadd_def upt_conv_Cons
        Let_def)
  have u: "sift_up 2 1 (<) [5, 9, 3, 9 :: nat] 0 3 1 = Some [5, 9, 3, 1]"
    by (subst sift_up.simps) (simp add: get_parent_index_def wsub_def)
  have d: "restore_heap_after_item_decrease 2 1 (<) [1, 5, 3, 9 :: nat] 0 4 = Some [5, 9, 3, 1]"
    using l0 u by (simp add: restore_heap_after_item_decrease_def sift_down_def wsub_def)
  have h1: "is_heap 2 1 (<) [5, 9, 3, 1 :: nat] 4 = Some False"
    by (simp add: is_heap_def is_heap_until_def is_heap_until_from.simps get_parent_index_def
        wsub_def Let_def)
  have g: "get_child_index (2 ^ 63 + 1) 2 2 = 3"
    by (simp add: get_child_index_def wadd_def wsub_def wmul_def SIZE_MAX_def Let_def)
  have l: "sift_down_loop (2 ^ 63 + 1) 2 (<) [1, 2, 3, 4 :: nat] 4 3 2 = None"
    apply (subst sift_down_loop.simps)
    using g by (simp add: move_up_max_child_def wsub_def wadd_def upt_conv_Cons)
  have sd: "sift_down (2 ^ 63 + 1) 2 (<) [1, 2, 3, 4 :: nat] 4 2 3 = None"
    using l by (simp add: sift_down_def wsub_def)
  have m: "make_heap (2 ^ 63 + 1) 2 (<) [1, 2, 3, 4 :: nat] 4 = None"
    using sd by (simp add: make_heap_def make_heap_loop_2 wsub_def)
  show ?thesis using s h0 d h1 m by simp
qed

text \<open>
  Claim C1, amended: for a layout with \<open>Fanout \<ge> 2\<close>, \<open>PageChunks \<ge> 1\<close> and
  \<open>PageChunks \<le> SIZE_MAX div Fanout\<close> (the layouts that the source admits by its assertion), a
  strict weak order and a range \<open>[first, last)\<close> whose size fits \<open>size_t\<close>, each heap-mutating
  operation, called under the precondition given here, returns and leaves \<open>is_heap\<close> true:
  on the full range for \<open>make_heap\<close> (no precondition), \<open>push_heap\<close> (the range minus its
  last item is a heap) and \<open>restore_heap_after_item_decrease\<close> (the whole range was a heap
  with the old key of \<open>item\<close>, and the key has decreased); on the range minus its last item for
  \<open>pop_heap\<close> and \<open>remove_from_heap\<close> (the range is a heap); on the range through \<open>item\<close> for
  \<open>restore_heap_after_item_increase\<close> (the items before \<open>item\<close> are a heap).
\<close>

theorem heap_operations_restore_is_heap:
  assumes L: "valid_layout Fanout PageChunks" and swo: "strict_weak_order less_comparer"
    and len: "length first \<le> SIZE_MAX" and n: "last_off \<le> length first"
  shows "(\<exists>first'. make_heap Fanout PageChunks less_comparer first last_off = Some first'
            \<and> is_heap Fanout PageChunks less_comparer first' last_off = Some True)
       \<and> (1 \<le> last_off
            \<and> is_heap Fanout PageChunks less_comparer first (last_off - 1) = Some True
          \<longrightarrow> (\<exists>first'. push_heap Fanout PageChunks less_comparer first last_off = Some first'
                 \<and> is_heap Fanout PageChunks less_comparer first' last_off = Some True))
       \<and> (item < last_off
            \<and> is_heap Fanout PageChunks less_comparer (first[item := old_item]) last_off
                = Some True
            \<and> less_comparer (first ! item) old_item
          \<longrightarrow> (\<exists>first'. restore_heap_after_item_decrease Fanout PageChunks less_comparer first
                           item last_off = Some first'
                 \<and> is_heap Fanout PageChunks less_comparer first' last_off = Some True))
       \<and> (1 \<le> last_off \<and> is_heap Fanout PageChunks less_comparer first last_off = Some True
          \<longrightarrow> (\<exists>first'. pop_heap Fanout PageChunks less_comparer first last_off = Some first'
                 \<and> is_heap Fanout PageChunks less_comparer first' (last_off - 1) = Some True))
       \<and> (item < last_off \<and> is_heap Fanout PageChunks less_comparer first last_off = Some True
          \<longrightarrow> (\<exists>first'. remove_from_heap Fanout PageChunks less_comparer first item last_off
                           = Some first'
                 \<and> is_heap Fanout PageChunks less_comparer first' (last_off - 1) = Some True))
       \<and> (item < last_off \<and> is_heap Fanout PageChunks less_comparer first item = Some True
          \<longrightarrow> (\<exists>first'. restore_heap_after_item_increase Fanout PageChunks less_comparer first
                           item = Some first'
                 \<and> is_heap Fanout PageChunks less_comparer first' (item + 1) = Some True))"
proof -
  let ?ih = "is_heap Fanout PageChunks less_comparer"
  let ?hf = "heap_from Fanout PageChunks less_comparer"
  have ih: "?ih ys m = Some True \<longleftrightarrow> ?hf ys m 0"
    if "length ys = length first" "m \<le> last_off" for ys m
    using is_heap_True[OF L, of ys m less_comparer] that len n by simp
  have make: "\<exists>first'. make_heap Fanout PageChunks less_comparer first last_off = Some first'
                \<and> ?ih first' last_off = Some True"
  proof -
    obtain ys where y: "make_heap Fanout PageChunks less_comparer first last_off = Some ys"
      "length ys = length first"
      using make_heap_perm[OF L len n, of less_comparer] by blast
    have "?hf ys last_off 0" using L swo len n y(1) by (rule make_heap_heap)
    then show ?thesis using y ih[of ys last_off] by simp
  qed
  have inc: "\<exists>first'. restore_heap_after_item_increase Fanout PageChunks less_comparer first i
                         = Some first' \<and> ?ih first' (i + 1) = Some True"
    if i: "i < last_off" and H: "?ih first i = Some True" for i
  proof -
    have il: "i < length first" using i n by linarith
    obtain ys where y: "restore_heap_after_item_increase Fanout PageChunks less_comparer first i
                          = Some ys" "length ys = length first"
      using restore_heap_after_item_increase_perm[OF L len il, of less_comparer] by blast
    have hf: "?hf first i 0" using H ih[of first i] i by simp
    have "?hf ys (Suc i) 0"
      using L swo len il hf y(1) by (rule restore_heap_after_item_increase_heap)
    then show ?thesis using y ih[of ys "i + 1"] i by simp
  qed
  have push: "\<exists>first'. push_heap Fanout PageChunks less_comparer first last_off = Some first'
                \<and> ?ih first' last_off = Some True"
    if "1 \<le> last_off" "?ih first (last_off - 1) = Some True"
    using inc[of "last_off - 1"] that push_heap_eq[OF n len that(1), of Fanout PageChunks less_comparer]
    by simp
  have dec: "\<exists>first'. restore_heap_after_item_decrease Fanout PageChunks less_comparer first
                         item last_off = Some first' \<and> ?ih first' last_off = Some True"
    if i: "item < last_off" and H: "?ih (first[item := old_item]) last_off = Some True"
      and d: "less_comparer (first ! item) old_item"
  proof -
    obtain ys where y: "restore_heap_after_item_decrease Fanout PageChunks less_comparer first
                          item last_off = Some ys" "length ys = length first"
      using restore_heap_after_item_decrease_perm[OF L len n i, of less_comparer] by blast
    have hf: "?hf (first[item := old_item]) last_off 0"
      using H ih[of "first[item := old_item]" last_off] by simp
    have "?hf ys last_off 0"
      using L swo len n i hf swo_asym[OF swo d] y(1)
      by (rule restore_heap_after_item_decrease_heap)
    then show ?thesis using y ih[of ys last_off] by simp
  qed
  have pop: "\<exists>first'. pop_heap Fanout PageChunks less_comparer first last_off = Some first'
                \<and> ?ih first' (last_off - 1) = Some True"
    if n1: "1 \<le> last_off" and H: "?ih first last_off = Some True"
  proof (cases "1 < last_off")
    case True
    then show ?thesis using pop_heap_spec[OF L swo len n True H] by blast
  next
    case False
    then have "last_off - 1 = 0" by simp
    then have "?ih first (last_off - 1) = Some True"
      using ih[of first "last_off - 1"] by (simp add: heap_from_def)
    then show ?thesis by (simp add: pop_heap_eq(2)[OF False])
  qed
  have rem: "\<exists>first'. remove_from_heap Fanout PageChunks less_comparer first item last_off
                         = Some first' \<and> ?ih first' (last_off - 1) = Some True"
    if i: "item < last_off" and H: "?ih first last_off = Some True"
  proof -
    obtain ys where y: "remove_from_heap Fanout PageChunks less_comparer first item last_off
                          = Some ys" "length ys = length first"
      using remove_from_heap_perm[OF L len n i, of less_comparer] by blast
    have hf: "?hf first last_off 0" using H ih[of first last_off] by simp
    have "?hf ys (last_off - 1) 0"
      using L swo len n i hf y(1) by (rule remove_from_heap_heap)
    then show ?thesis using y ih[of ys "last_off - 1"] by simp
  qed
  show ?thesis using make push dec pop rem inc[of item] by blast
qed

theorem heap_operations_restore_is_heap_witness:
  "valid_layout 2 2 \<and> strict_weak_order ((<) :: nat \<Rightarrow> nat \<Rightarrow> bool)
     \<and> length [9, 5, 7, 3 :: nat] \<le> SIZE_MAX \<and> (4::nat) \<le> length [9, 5, 7, 3 :: nat]
     \<and> (1::nat) \<le> 4 \<and> (3::nat) < 4
     \<and> is_heap 2 2 (<) [9, 5, 7, 3 :: nat] (4 - 1) = Some True
     \<and> is_heap 2 2 (<) ([9, 5, 7, 3 :: nat][3 := 4]) 4 = Some True
     \<and> [9, 5, 7, 3 :: nat] ! 3 < 4
     \<and> is_heap 2 2 (<) [9, 5, 7, 3 :: nat] 4 = Some True
     \<and> is_heap 2 2 (<) [9, 5, 7, 3 :: nat] 3 = Some True
     \<and> (\<exists>first'. make_heap 2 2 (<) [9, 5, 7, 3 :: nat] 4 = Some first'
            \<and> is_heap 2 2 (<) first' 4 = Some True)
     \<and> (\<exists>first'. push_heap 2 2 (<) [9, 5, 7, 3 :: nat] 4 = Some first'
            \<and> is_heap 2 2 (<) first' 4 = Some True)
     \<and> (\<exists>first'. restore_heap_after_item_decrease 2 2 (<) [9, 5, 7, 3 :: nat] 3 4 = Some first'
            \<and> is_heap 2 2 (<) first' 4 = Some True)
     \<and> (\<exists>first'. pop_heap 2 2 (<) [9, 5, 7, 3 :: nat] 4 = Some first'
            \<and> is_heap 2 2 (<) first' (4 - 1) = Some True)
     \<and> (\<exists>first'. remove_from_heap 2 2 (<) [9, 5, 7, 3 :: nat] 3 4 = Some first'
            \<and> is_heap 2 2 (<) first' (4 - 1) = Some True)
     \<and> (\<exists>first'. restore_heap_after_item_increase 2 2 (<) [9, 5, 7, 3 :: nat] 3 = Some first'
            \<and> is_heap 2 2 (<) first' (3 + 1) = Some True)"
proof -
  have l: "valid_layout 2 2" by (simp add: valid_layout_def SIZE_MAX_def)
  have s: "strict_weak_order ((<) :: nat \<Rightarrow> nat \<Rightarrow> bool)"
    by (auto simp: strict_weak_order_def)
  have b: "length [9, 5, 7, 3 :: nat] \<le> SIZE_MAX" "(4::nat) \<le> length [9, 5, 7, 3 :: nat]"
    by (simp_all add: SIZE_MAX_def)
  have h: "is_heap 2 2 (<) [9, 5, 7, 3 :: nat] (4 - 1) = Some True"
    "is_heap 2 2 (<) ([9, 5, 7, 3 :: nat][3 := 4]) 4 = Some True"
    "is_heap 2 2 (<) [9, 5, 7, 3 :: nat] 4 = Some True"
    "is_heap 2 2 (<) [9, 5, 7, 3 :: nat] 3 = Some True"
    by (simp_all add: is_heap_def is_heap_until_def is_heap_until_from.simps get_parent_index_def
        wsub_def wadd_def wmul_def Let_def)
  have c: "(1::nat) \<le> 4" "(3::nat) < 4" "[9, 5, 7, 3 :: nat] ! 3 < 4" by simp_all
  show ?thesis
    using heap_operations_restore_is_heap[OF l s b, of 3 4] l s b h c by simp
qed



text \<open>
  Claim C7. If \<open>[first, last)\<close> is a max-heap under a strict weak order and has more than one
  item, then \<open>pop_heap\<close> returns, \<open>[first, last - 1)\<close> is a max-heap afterwards, and
  \<open>*(last - 1)\<close> holds the former root, which no item of the original range exceeds; the
  range keeps its items.
\<close>

theorem pop_heap_max:
  assumes "valid_layout Fanout PageChunks" and "strict_weak_order less_comparer"
    and "length first \<le> SIZE_MAX" and "last_off \<le> length first" and "1 < last_off"
    and "is_heap Fanout PageChunks less_comparer first last_off = Some True"
  shows "\<exists>first'. pop_heap Fanout PageChunks less_comparer first last_off = Some first'
           \<and> is_heap Fanout PageChunks less_comparer first' (last_off - 1) = Some True
           \<and> first' ! (last_off - 1) = first ! 0
           \<and> (\<forall>i<last_off. \<not> less_comparer (first' ! (last_off - 1)) (first ! i))
           \<and> length first' = length first
           \<and> mset (take last_off first') = mset (take last_off first)"
  using assms by (rule pop_heap_spec)

theorem pop_heap_max_witness:
  "valid_layout 2 2 \<and> strict_weak_order ((<) :: nat \<Rightarrow> nat \<Rightarrow> bool)
     \<and> length [9, 5, 7, 3 :: nat] \<le> SIZE_MAX \<and> (4::nat) \<le> length [9, 5, 7, 3 :: nat] \<and> (1::nat) < 4
     \<and> is_heap 2 2 (<) [9, 5, 7, 3 :: nat] 4 = Some True
     \<and> (\<exists>first'. pop_heap 2 2 (<) [9, 5, 7, 3 :: nat] 4 = Some first'
           \<and> is_heap 2 2 (<) first' (4 - 1) = Some True
           \<and> first' ! (4 - 1) = [9, 5, 7, 3] ! 0
           \<and> (\<forall>i<4. \<not> first' ! (4 - 1) < [9, 5, 7, 3] ! i))"
proof -
  have l: "valid_layout 2 2" by (simp add: valid_layout_def SIZE_MAX_def)
  have s: "strict_weak_order ((<) :: nat \<Rightarrow> nat \<Rightarrow> bool)"
    by (auto simp: strict_weak_order_def)
  have b: "length [9, 5, 7, 3 :: nat] \<le> SIZE_MAX" "(4::nat) \<le> length [9, 5, 7, 3 :: nat]"
    "(1::nat) < 4"
    by (simp_all add: SIZE_MAX_def)
  have h: "is_heap 2 2 (<) [9, 5, 7, 3 :: nat] 4 = Some True"
    by (simp add: is_heap_def is_heap_until_def is_heap_until_from.simps get_parent_index_def
        wsub_def wadd_def wmul_def Let_def)
  show ?thesis using pop_heap_max[OF l s b h] l s b h by blast
qed



text \<open>
  Claim C10. For every layout that the source admits and every range \<open>[first, last)\<close> whose
  size fits \<open>size_t\<close>, whatever the comparator and the items: \<open>make_heap\<close>, \<open>push_heap\<close>,
  \<open>pop_heap\<close>, \<open>sort_heap\<close>, and for every \<open>item\<close> of the range
  \<open>restore_heap_after_item_increase\<close>, \<open>restore_heap_after_item_decrease\<close> and
  \<open>remove_from_heap\<close>, return and leave in the range the same multiset of values, with the
  items outside the range untouched. The two sifts, started with the hole at \<open>item\<close> and
  holding the value \<open>v\<close>, return the array with \<open>v\<close> written into one slot in place of the
  value of the first hole: the multiset of the result is that of \<open>first[item := v]\<close>.
\<close>

theorem heap_operations_permute:
  assumes L: "valid_layout Fanout PageChunks"
    and len: "length first \<le> SIZE_MAX" and n: "last_off \<le> length first"
  shows "(\<exists>first'. make_heap Fanout PageChunks less_comparer first last_off = Some first'
            \<and> mset (take last_off first') = mset (take last_off first)
            \<and> drop last_off first' = drop last_off first)
       \<and> (\<exists>first'. push_heap Fanout PageChunks less_comparer first last_off = Some first'
            \<and> mset (take last_off first') = mset (take last_off first)
            \<and> drop last_off first' = drop last_off first)
       \<and> (\<exists>first'. pop_heap Fanout PageChunks less_comparer first last_off = Some first'
            \<and> mset (take last_off first') = mset (take last_off first)
            \<and> drop last_off first' = drop last_off first)
       \<and> (\<exists>first'. sort_heap Fanout PageChunks less_comparer first last_off = Some first'
            \<and> mset (take last_off first') = mset (take last_off first)
            \<and> drop last_off first' = drop last_off first)
       \<and> (item < last_off
          \<longrightarrow> (\<exists>first'. restore_heap_after_item_increase Fanout PageChunks less_comparer first
                           item = Some first'
                 \<and> mset (take last_off first') = mset (take last_off first)
                 \<and> drop last_off first' = drop last_off first)
            \<and> (\<exists>first'. restore_heap_after_item_decrease Fanout PageChunks less_comparer first
                           item last_off = Some first'
                 \<and> mset (take last_off first') = mset (take last_off first)
                 \<and> drop last_off first' = drop last_off first)
            \<and> (\<exists>first'. remove_from_heap Fanout PageChunks less_comparer first item last_off
                           = Some first'
                 \<and> mset (take last_off first') = mset (take last_off first)
                 \<and> drop last_off first' = drop last_off first)
            \<and> (\<exists>first'. sift_up Fanout PageChunks less_comparer first root_index item v
                           = Some first'
                 \<and> mset first' = mset (first[item := v]))
            \<and> (\<exists>first'. sift_down Fanout PageChunks less_comparer first last_off item v
                           = Some first'
                 \<and> mset first' = mset (first[item := v])))"
proof -
  let ?R = "\<lambda>ys. mset (take last_off ys) = mset (take last_off first)
                \<and> drop last_off ys = drop last_off first"
  have make: "\<exists>ys. make_heap Fanout PageChunks less_comparer first last_off = Some ys \<and> ?R ys"
    using make_heap_perm[OF L len n, of less_comparer] perm_range by blast
  have inc: "\<exists>ys. restore_heap_after_item_increase Fanout PageChunks less_comparer first i
                     = Some ys \<and> ?R ys" if i: "i < last_off" for i
  proof -
    have il: "i < length first" using i n by linarith
    obtain ys where y: "restore_heap_after_item_increase Fanout PageChunks less_comparer first i
                          = Some ys" "length ys = length first" "mset ys = mset first"
      "\<forall>k. i < k \<longrightarrow> ys ! k = first ! k"
      using restore_heap_after_item_increase_perm[OF L len il, of less_comparer] by blast
    have "\<forall>k. last_off \<le> k \<longrightarrow> ys ! k = first ! k" using y(4) i by simp
    then show ?thesis using y(1) perm_range[OF y(2,3)] by blast
  qed
  have push: "\<exists>ys. push_heap Fanout PageChunks less_comparer first last_off = Some ys \<and> ?R ys"
  proof (cases "1 \<le> last_off")
    case True
    show ?thesis
      using inc[of "last_off - 1"] True
        push_heap_eq[OF n len True, of Fanout PageChunks less_comparer] by simp
  next
    case False
    then show ?thesis by (simp add: push_heap_def)
  qed
  have pop: "\<exists>ys. pop_heap Fanout PageChunks less_comparer first last_off = Some ys \<and> ?R ys"
  proof (cases "1 < last_off")
    case True
    then have n2: "2 \<le> last_off" by simp
    show ?thesis
      using pop_heap_priv_perm[OF L len n n2, of less_comparer] perm_range
      by (simp add: pop_heap_eq(1)[OF True]) blast
  next
    case False
    then show ?thesis by (simp add: pop_heap_eq(2)[OF False])
  qed
  have sort: "\<exists>ys. sort_heap Fanout PageChunks less_comparer first last_off = Some ys \<and> ?R ys"
    using sort_heap_loop_perm[OF L len n, of less_comparer] perm_range
    by (simp add: sort_heap_def) blast
  have dec: "\<exists>ys. restore_heap_after_item_decrease Fanout PageChunks less_comparer first item
                     last_off = Some ys \<and> ?R ys" if i: "item < last_off"
    using restore_heap_after_item_decrease_perm[OF L len n i, of less_comparer] perm_range
    by blast
  have rem: "\<exists>ys. remove_from_heap Fanout PageChunks less_comparer first item last_off = Some ys
                \<and> ?R ys" if i: "item < last_off"
    using remove_from_heap_perm[OF L len n i, of less_comparer] perm_range by blast
  have up: "\<exists>ys. sift_up Fanout PageChunks less_comparer first root_index item v = Some ys
                \<and> mset ys = mset (first[item := v])" if i: "item < last_off"
  proof -
    have il: "item < length first" using i n by linarith
    show ?thesis using sift_up_perm[OF L len il, of less_comparer root_index v] by blast
  qed
  have down: "\<exists>ys. sift_down Fanout PageChunks less_comparer first last_off item v = Some ys
                \<and> mset ys = mset (first[item := v])" if i: "item < last_off"
    using sift_down_perm[OF L len n i, of less_comparer v] by blast
  show ?thesis using make push pop sort inc[of item] dec rem up down by blast
qed

theorem heap_operations_permute_witness:
  "valid_layout 2 2 \<and> length [3, 1, 4, 1, 5 :: nat] \<le> SIZE_MAX
     \<and> (4 :: nat) \<le> length [3, 1, 4, 1, 5 :: nat] \<and> (2 :: nat) < 4
     \<and> (\<exists>first'. make_heap 2 2 (<) [3, 1, 4, 1, 5 :: nat] 4 = Some first'
            \<and> mset (take 4 first') = mset (take 4 [3, 1, 4, 1, 5])
            \<and> drop 4 first' = drop 4 [3, 1, 4, 1, 5])
     \<and> (\<exists>first'. remove_from_heap 2 2 (<) [3, 1, 4, 1, 5 :: nat] 2 4 = Some first'
            \<and> mset (take 4 first') = mset (take 4 [3, 1, 4, 1, 5])
            \<and> drop 4 first' = drop 4 [3, 1, 4, 1, 5])"
proof -
  have l: "valid_layout 2 2" by (simp add: valid_layout_def SIZE_MAX_def)
  have b: "length [3, 1, 4, 1, 5 :: nat] \<le> SIZE_MAX" "(4 :: nat) \<le> length [3, 1, 4, 1, 5 :: nat]"
    by (simp_all add: SIZE_MAX_def)
  have c: "(2 :: nat) < 4" by simp
  show ?thesis
    using heap_operations_permute[OF l b, of "(<)" 2 0 0] l b c by blast
qed

section \<open>Claims about the sift engine\<close>

text \<open>
  Claim C8. In the max-child selection of sift-down over a group of \<open>children_count\<close>
  children, under a strict weak order: the child moved into the hole is a maximum of the
  group, and every child of the group that is not less than it has an index that is not
  later. So among children of equal, maximal rank the later-indexed one is selected. This is
  because each step of the scan replaces the incumbent whenever the new candidate is not
  less than it.
\<close>

theorem move_up_max_child_later_wins:
  assumes swo: "strict_weak_order less_comparer" and cnt: "1 \<le> children_count"
    and h: "hole_index < length first" and c: "child_index + children_count \<le> length first"
    and len: "length first \<le> SIZE_MAX"
  shows "\<exists>j<children_count.
           move_up_max_child less_comparer first children_count hole_index child_index
             = Some (first[hole_index := first ! (child_index + j)], child_index + j)
           \<and> (\<forall>t<children_count.
                 \<not> less_comparer (first ! (child_index + j)) (first ! (child_index + t)))
           \<and> (\<forall>t<children_count.
                 \<not> less_comparer (first ! (child_index + t)) (first ! (child_index + j))
                 \<longrightarrow> t \<le> j)
           \<and> (\<forall>m. 1 \<le> m \<longrightarrow>
                 max_child_offset less_comparer first (Suc m) child_index
                   = (if \<not> less_comparer (first ! wadd child_index m)
                            (first ! wadd child_index
                               (max_child_offset less_comparer first m child_index))
                      then m else max_child_offset less_comparer first m child_index))"
proof -
  let ?j = "max_child_offset less_comparer first children_count child_index"
  have j: "?j < children_count" using cnt by (rule max_child_offset_less)
  have e: "move_up_max_child less_comparer first children_count hole_index child_index
             = Some (first[hole_index := first ! (child_index + ?j)], child_index + ?j)"
    using cnt h c len by (rule move_up_max_child_eq)
  note mx = max_child_offset_max[OF swo cnt c len]
  have later: "\<forall>t<children_count.
                 \<not> less_comparer (first ! (child_index + t)) (first ! (child_index + ?j))
                 \<longrightarrow> t \<le> ?j"
    using mx by (meson not_le_imp_less)
  have scan: "\<forall>m. 1 \<le> m \<longrightarrow>
                 max_child_offset less_comparer first (Suc m) child_index
                   = (if \<not> less_comparer (first ! wadd child_index m)
                            (first ! wadd child_index
                               (max_child_offset less_comparer first m child_index))
                      then m else max_child_offset less_comparer first m child_index)"
    by (simp add: max_child_offset_def)
  show ?thesis using j e mx later scan by blast
qed

theorem move_up_max_child_later_wins_witness:
  "strict_weak_order ((<) :: nat \<Rightarrow> nat \<Rightarrow> bool) \<and> (1 :: nat) \<le> 3
     \<and> (0 :: nat) < length [1, 5, 5, 2 :: nat] \<and> (1 :: nat) + 3 \<le> length [1, 5, 5, 2 :: nat]
     \<and> length [1, 5, 5, 2 :: nat] \<le> SIZE_MAX
     \<and> \<not> [1, 5, 5, 2 :: nat] ! (1 + 0) < [1, 5, 5, 2] ! (1 + 1)
     \<and> move_up_max_child (<) [1, 5, 5, 2 :: nat] 3 0 1 = Some ([5, 5, 5, 2], 2)"
proof -
  have s: "strict_weak_order ((<) :: nat \<Rightarrow> nat \<Rightarrow> bool)"
    by (auto simp: strict_weak_order_def)
  have b: "(1 :: nat) \<le> 3" "(0 :: nat) < length [1, 5, 5, 2 :: nat]"
    "(1 :: nat) + 3 \<le> length [1, 5, 5, 2 :: nat]" "length [1, 5, 5, 2 :: nat] \<le> SIZE_MAX"
    by (simp_all add: SIZE_MAX_def)
  have q: "\<not> [1, 5, 5, 2 :: nat] ! (1 + 0) < [1, 5, 5, 2] ! (1 + 1)" by simp
  from move_up_max_child_later_wins[OF s b] obtain j where
    j: "j < 3"
    and e: "move_up_max_child (<) [1, 5, 5, 2 :: nat] 3 0 1
              = Some ([1, 5, 5, 2][0 := [1, 5, 5, 2] ! (1 + j)], 1 + j)"
    and mx: "\<forall>t<3. \<not> [1, 5, 5, 2 :: nat] ! (1 + j) < [1, 5, 5, 2] ! (1 + t)"
    and lw: "\<forall>t<3. \<not> [1, 5, 5, 2 :: nat] ! (1 + t) < [1, 5, 5, 2] ! (1 + j) \<longrightarrow> t \<le> j"
    by (elim exE conjE)
  have "j \<noteq> 0" using lw[rule_format, of 1] mx[rule_format, of 1] by (cases "j = 0") simp_all
  moreover have "j \<noteq> 2" using mx[rule_format, of 0] by (cases "j = 2") simp_all
  ultimately have "j = 1" using j by linarith
  then have "move_up_max_child (<) [1, 5, 5, 2 :: nat] 3 0 1 = Some ([5, 5, 5, 2], 2)"
    using e by simp
  then show ?thesis using s b q by (intro conjI)
qed

text \<open>
  Claim C4, as stated: in \<open>remove_from_heap\<close>, when the removed item is not the last one, the
  value of the last item goes to a temporary, the value of the removed item goes to the last
  slot, and the temporary is sifted down from the position of the removed item exactly when
  it ranks higher than the value now at the tail slot, and is sifted up otherwise. It fails
  on the heap \<open>9, 2, 8, 1, 1, 7\<close> with the item at index \<open>3\<close>: the temporary \<open>7\<close> ranks higher
  than the removed \<open>1\<close>, and the source sifts it up; sifting it down gives another array.
\<close>

theorem remove_from_heap_direction_counterexample:
  "is_heap 2 1 (<) [9, 2, 8, 1, 1, 7 :: nat] 6 = Some True
     \<and> (3 :: nat) < 6 - 1
     \<and> ([9, 2, 8, 1, 1, 7 :: nat][5 := [9, 2, 8, 1, 1, 7] ! 3]) ! 5 < [9, 2, 8, 1, 1, 7] ! 5
     \<and> remove_from_heap 2 1 (<) [9, 2, 8, 1, 1, 7 :: nat] 3 6
         = sift_up 2 1 (<) ([9, 2, 8, 1, 1, 7][5 := [9, 2, 8, 1, 1, 7] ! 3]) 0 3
             ([9, 2, 8, 1, 1, 7] ! 5)
     \<and> remove_from_heap 2 1 (<) [9, 2, 8, 1, 1, 7 :: nat] 3 6
         \<noteq> sift_down 2 1 (<) ([9, 2, 8, 1, 1, 7][5 := [9, 2, 8, 1, 1, 7] ! 3]) 5 3
              ([9, 2, 8, 1, 1, 7] ! 5)"
proof -
  have h: "is_heap 2 1 (<) [9, 2, 8, 1, 1, 7 :: nat] 6 = Some True"
    by (simp add: is_heap_def is_heap_until_def is_heap_until_from.simps get_parent_index_def
        wsub_def Let_def)
  have r: "remove_from_heap 2 1 (<) [9, 2, 8, 1, 1, 7 :: nat] 3 6 = Some [9, 7, 8, 2, 1, 1]"
    by (simp add: remove_from_heap_def sift_up.simps get_parent_index_def wsub_def Let_def)
  have u: "sift_up 2 1 (<) ([9, 2, 8, 1, 1, 7 :: nat][5 := [9, 2, 8, 1, 1, 7] ! 3]) 0 3
             ([9, 2, 8, 1, 1, 7] ! 5) = Some [9, 7, 8, 2, 1, 1]"
    by (simp add: sift_up.simps get_parent_index_def wsub_def Let_def)
  have d: "sift_down 2 1 (<) ([9, 2, 8, 1, 1, 7 :: nat][5 := [9, 2, 8, 1, 1, 7] ! 3]) 5 3
             ([9, 2, 8, 1, 1, 7] ! 5) = Some [9, 2, 8, 7, 1, 1]"
    by (simp add: sift_down_def sift_down_loop.simps move_up_max_child_def
        max_child_offset_def get_child_index_def get_parent_index_def sift_up.simps
        wsub_def wadd_def wmul_def SIZE_MAX_def Let_def)
  show ?thesis unfolding r u d using h by simp
qed

text \<open>
  Claim C4, amended: in \<open>remove_from_heap\<close>, when the removed item is not the last one, the
  value of the last item goes to a temporary, the value of the removed item goes to the last
  slot, and the temporary is sifted down from the position of the removed item exactly when
  it ranks lower than the value now at the tail slot (\<open>less_comparer tmp tail\<close> holds), and
  is sifted up toward the root otherwise.
\<close>

theorem remove_from_heap_direction:
  assumes "item < last_off - 1" and "last_off \<le> length first" and "length first \<le> SIZE_MAX"
  shows "remove_from_heap Fanout PageChunks less_comparer first item last_off
           = (let tmp = first ! (last_off - 1);
                  first' = first[last_off - 1 := first ! item]
              in if less_comparer tmp (first' ! (last_off - 1))
                 then sift_down Fanout PageChunks less_comparer first' (last_off - 1) item tmp
                 else sift_up Fanout PageChunks less_comparer first' 0 item tmp)
         \<and> (first[last_off - 1 := first ! item]) ! (last_off - 1) = first ! item"
proof -
  have w: "wsub last_off 1 = last_off - 1" using assms by (intro wsub_eq) linarith+
  have b: "last_off - 1 < length first" "item < length first" using assms by linarith+
  show ?thesis unfolding remove_from_heap_def Let_def w using assms(1) b by simp
qed

theorem remove_from_heap_direction_witness:
  "(3 :: nat) < 6 - 1 \<and> (6 :: nat) \<le> length [9, 2, 8, 1, 1, 7 :: nat]
     \<and> length [9, 2, 8, 1, 1, 7 :: nat] \<le> SIZE_MAX
     \<and> remove_from_heap 2 1 (<) [9, 2, 8, 1, 1, 7 :: nat] 3 6
         = sift_up 2 1 (<) [9, 2, 8, 1, 1, 1] 0 3 7"
proof -
  have b: "(3 :: nat) < 6 - 1" "(6 :: nat) \<le> length [9, 2, 8, 1, 1, 7 :: nat]"
    "length [9, 2, 8, 1, 1, 7 :: nat] \<le> SIZE_MAX"
    by (simp_all add: SIZE_MAX_def)
  have "remove_from_heap 2 1 (<) [9, 2, 8, 1, 1, 7 :: nat] 3 6
         = sift_up 2 1 (<) [9, 2, 8, 1, 1, 1] 0 3 7"
    using remove_from_heap_direction[OF b, of 2 1 "(<)"] by (simp add: Let_def)
  then show ?thesis using b by (intro conjI)
qed

section \<open>Sorting\<close>


subsection \<open>Ascending lists\<close>

lemma ascending_nth:
  "ascending cmp xs \<longleftrightarrow> (\<forall>i j. i < j \<longrightarrow> j < length xs \<longrightarrow> \<not> cmp (xs ! j) (xs ! i))"
  by (simp add: ascending_def sorted_wrt_iff_nth_less)

lemma ascending_count_below:
  assumes swo: "strict_weak_order cmp" and a: "ascending cmp xs" and i: "i < length xs"
  shows "length (filter (\<lambda>z. cmp z (xs ! i)) xs) \<le> i"
proof -
  have "\<forall>z \<in> set (drop i xs). \<not> cmp z (xs ! i)"
  proof
    fix z assume "z \<in> set (drop i xs)"
    then obtain k where k: "k < length xs - i" "z = xs ! (i + k)"
      by (auto simp: in_set_conv_nth)
    show "\<not> cmp z (xs ! i)"
    proof (cases "k = 0")
      case True
      then show ?thesis using k swo_irrefl[OF swo] by simp
    next
      case False
      then show ?thesis using a k unfolding ascending_nth by simp
    qed
  qed
  then have "filter (\<lambda>z. cmp z (xs ! i)) (drop i xs) = []" by (simp add: filter_empty_conv)
  then have "filter (\<lambda>z. cmp z (xs ! i)) xs = filter (\<lambda>z. cmp z (xs ! i)) (take i xs)"
    by (metis append_Nil2 append_take_drop_id filter_append)
  moreover have "length (filter (\<lambda>z. cmp z (xs ! i)) (take i xs)) \<le> length (take i xs)"
    by (rule length_filter_le)
  ultimately show ?thesis by simp
qed

lemma ascending_count_not_above:
  assumes swo: "strict_weak_order cmp" and a: "ascending cmp xs" and i: "i < length xs"
  shows "i < length (filter (\<lambda>z. \<not> cmp (xs ! i) z) xs)"
proof -
  have "\<forall>z \<in> set (take (Suc i) xs). \<not> cmp (xs ! i) z"
  proof
    fix z assume "z \<in> set (take (Suc i) xs)"
    then obtain k where k: "k < Suc i" "z = xs ! k"
      using i by (auto simp: in_set_conv_nth)
    show "\<not> cmp (xs ! i) z"
    proof (cases "k = i")
      case True
      then show ?thesis using k swo_irrefl[OF swo] by simp
    next
      case False
      then have "k < i" using k by simp
      then show ?thesis using a k i unfolding ascending_nth by simp
    qed
  qed
  then have "filter (\<lambda>z. \<not> cmp (xs ! i) z) (take (Suc i) xs) = take (Suc i) xs"
    by (simp add: filter_id_conv)
  then have "length (filter (\<lambda>z. \<not> cmp (xs ! i) z) (take (Suc i) xs)) = Suc i"
    using i by simp
  moreover have "filter (\<lambda>z. \<not> cmp (xs ! i) z) xs
           = filter (\<lambda>z. \<not> cmp (xs ! i) z) (take (Suc i) xs)
             @ filter (\<lambda>z. \<not> cmp (xs ! i) z) (drop (Suc i) xs)"
    by (metis append_take_drop_id filter_append)
  ultimately show ?thesis by simp
qed

lemma ascending_perm_nth:
  assumes swo: "strict_weak_order cmp" and a: "ascending cmp xs" and b: "ascending cmp ys"
    and m: "mset xs = mset ys" and i: "i < length xs"
  shows "\<not> cmp (xs ! i) (ys ! i)"
proof
  assume c: "cmp (xs ! i) (ys ! i)"
  have len: "length ys = length xs" using m by (metis size_mset)
  let ?Q = "\<lambda>z. \<not> cmp (xs ! i) z" and ?P = "\<lambda>z. cmp z (ys ! i)"
  have imp: "?P z" if "?Q z" for z
    using swo_ntrans[OF swo that, of "ys ! i"] c by blast
  have "filter_mset ?Q (mset ys) \<subseteq># filter_mset ?P (mset ys)"
    by (rule filter_mset_mono_strong) (use imp in simp_all)
  then have "size (filter_mset ?Q (mset ys)) \<le> size (filter_mset ?P (mset ys))"
    by (rule size_mset_mono)
  then have "length (filter ?Q ys) \<le> length (filter ?P ys)"
    by (metis mset_filter size_mset)
  moreover have "length (filter ?Q ys) = length (filter ?Q xs)"
    using m by (metis mset_filter size_mset)
  moreover have "i < length (filter ?Q xs)" using swo a i by (rule ascending_count_not_above)
  moreover have "length (filter ?P ys) \<le> i"
    using swo b by (rule ascending_count_below) (use i len in simp)
  ultimately show False by linarith
qed

lemma ascending_perm_equal_rank:
  assumes swo: "strict_weak_order cmp" and a: "ascending cmp xs" and b: "ascending cmp ys"
    and m: "mset xs = mset ys"
  shows "list_all2 (equal_rank cmp) xs ys"
proof -
  have len: "length xs = length ys" using m by (metis size_mset)
  show ?thesis
    unfolding list_all2_conv_all_nth equal_rank_def
    using ascending_perm_nth[OF swo a b m] ascending_perm_nth[OF swo b a m[symmetric]] len
    by simp
qed

lemma ascending_perm_unique:
  assumes swo: "strict_weak_order cmp" and a: "ascending cmp xs" and b: "ascending cmp ys"
    and m: "mset xs = mset ys" and t: "\<forall>a b. equal_rank cmp a b \<longrightarrow> a = b"
  shows "xs = ys"
proof -
  have "list_all2 (equal_rank cmp) xs ys" using swo a b m by (rule ascending_perm_equal_rank)
  then have "list_all2 (=) xs ys" using t by (simp add: list_all2_conv_all_nth)
  then show ?thesis by (simp add: list_all2_eq)
qed

subsection \<open>The reference sort\<close>

lemma mset_ref_insert: "mset (ref_insert cmp x xs) = add_mset x (mset xs)"
  by (induction xs) simp_all

lemma mset_ref_sort: "mset (ref_sort cmp xs) = mset xs"
  unfolding ref_sort_def by (induction xs) (simp_all add: mset_ref_insert)

lemma set_ref_insert: "set (ref_insert cmp x xs) = insert x (set xs)"
  by (induction xs) auto

lemma ascending_Cons:
  "ascending cmp (x # xs) \<longleftrightarrow> (\<forall>y \<in> set xs. \<not> cmp y x) \<and> ascending cmp xs"
  by (simp add: ascending_def)

lemma ascending_ref_insert:
  assumes swo: "strict_weak_order cmp" and a: "ascending cmp xs"
  shows "ascending cmp (ref_insert cmp x xs)"
  using a
proof (induction xs)
  case Nil
  then show ?case by (simp add: ascending_def)
next
  case (Cons y ys)
  show ?case
  proof (cases "cmp y x")
    case True
    have "\<not> cmp x y" using swo_asym[OF swo True] .
    then show ?thesis using Cons True by (simp add: ascending_Cons set_ref_insert)
  next
    case False
    have "\<forall>z \<in> set ys. \<not> cmp z x"
      using Cons.prems swo_ntrans[OF swo _ False] by (auto simp: ascending_Cons)
    then show ?thesis using Cons.prems False by (simp add: ascending_Cons)
  qed
qed

lemma ascending_ref_sort:
  assumes "strict_weak_order cmp"
  shows "ascending cmp (ref_sort cmp xs)"
  unfolding ref_sort_def
proof (induction xs)
  case Nil
  show ?case by (simp add: ascending_def)
next
  case (Cons x xs)
  then show ?case using ascending_ref_insert[OF assms] by simp
qed


subsection \<open>Repeated extraction of the root\<close>

lemma repeat_shrinking_sorted:
  assumes L: "valid_layout F C" and swo: "strict_weak_order cmp"
    and step_ok: "\<And>xs m. 1 \<le> m \<Longrightarrow> m \<le> length xs \<Longrightarrow> length xs \<le> SIZE_MAX
        \<Longrightarrow> heap_from F C cmp xs m 0
        \<Longrightarrow> \<exists>ys. step xs m = Some ys \<and> length ys = length xs \<and> mset ys = mset xs
              \<and> (\<forall>k. m \<le> k \<longrightarrow> ys ! k = xs ! k) \<and> ys ! (m - 1) = xs ! 0
              \<and> heap_from F C cmp ys (m - 1) 0"
    and len: "length xs \<le> SIZE_MAX" and nN: "n \<le> N" and N: "N \<le> length xs"
    and H: "heap_from F C cmp xs n 0"
    and inv2: "\<forall>a b. a < n \<and> n \<le> b \<and> b < N \<longrightarrow> \<not> cmp (xs ! b) (xs ! a)"
    and inv3: "\<forall>a b. n \<le> a \<and> a < b \<and> b < N \<longrightarrow> \<not> cmp (xs ! b) (xs ! a)"
  shows "\<exists>ys. repeat_shrinking step xs n = Some ys \<and> length ys = length xs
           \<and> mset ys = mset xs \<and> (\<forall>k. N \<le> k \<longrightarrow> ys ! k = xs ! k)
           \<and> (\<forall>a b. a < b \<and> b < N \<longrightarrow> \<not> cmp (ys ! b) (ys ! a))"
  using len nN N H inv2 inv3
proof (induction n arbitrary: xs)
  case 0
  then show ?case by simp
next
  case (Suc m)
  have ml: "Suc m \<le> length xs" using Suc.prems by linarith
  obtain zs where z: "step xs (Suc m) = Some zs" "length zs = length xs" "mset zs = mset xs"
    "\<forall>k. Suc m \<le> k \<longrightarrow> zs ! k = xs ! k" "zs ! m = xs ! 0" "heap_from F C cmp zs m 0"
    using step_ok[of "Suc m" xs] ml Suc.prems(1,4) by auto
  have mx: "\<not> cmp (xs ! 0) (xs ! a)" if "a < Suc m" for a
    using heap_root_max[OF L swo Suc.prems(4) _ that] ml Suc.prems(1) by simp
  have pre: "\<exists>a' < Suc m. xs ! a' = zs ! a" if a: "a < m" for a
  proof -
    have "mset (take (Suc m) zs) = mset (take (Suc m) xs)"
      using perm_range[OF z(2,3,4)] by simp
    then have "set (take (Suc m) zs) = set (take (Suc m) xs)" by (rule mset_eq_setD)
    moreover have "zs ! a \<in> set (take (Suc m) zs)"
      using a ml z(2) by (auto simp: in_set_conv_nth intro!: exI[of _ a])
    ultimately have "zs ! a \<in> set (take (Suc m) xs)" by simp
    then show ?thesis using ml by (auto simp: in_set_conv_nth)
  qed
  have i2: "\<forall>a b. a < m \<and> m \<le> b \<and> b < N \<longrightarrow> \<not> cmp (zs ! b) (zs ! a)"
  proof (intro allI impI)
    fix a b assume ab: "a < m \<and> m \<le> b \<and> b < N"
    obtain a' where a': "a' < Suc m" "xs ! a' = zs ! a" using pre ab by blast
    show "\<not> cmp (zs ! b) (zs ! a)"
    proof (cases "b = m")
      case True
      then show ?thesis using mx[OF a'(1)] a'(2) z(5) by simp
    next
      case False
      then have "Suc m \<le> b" using ab by linarith
      have "\<not> cmp (xs ! b) (xs ! a')"
        using Suc.prems(5)[rule_format, of a' b] a'(1) \<open>Suc m \<le> b\<close> ab by simp
      then show ?thesis using a'(2) z(4) \<open>Suc m \<le> b\<close> by simp
    qed
  qed
  have i3: "\<forall>a b. m \<le> a \<and> a < b \<and> b < N \<longrightarrow> \<not> cmp (zs ! b) (zs ! a)"
  proof (intro allI impI)
    fix a b assume ab: "m \<le> a \<and> a < b \<and> b < N"
    then have b: "Suc m \<le> b" by linarith
    show "\<not> cmp (zs ! b) (zs ! a)"
    proof (cases "a = m")
      case True
      have "\<not> cmp (xs ! b) (xs ! 0)" using Suc.prems(5) b ab by simp
      then show ?thesis using True z(4,5) b by simp
    next
      case False
      then have "Suc m \<le> a" using ab by linarith
      then show ?thesis using Suc.prems(6) z(4) ab b by simp
    qed
  qed
  have p: "length zs \<le> SIZE_MAX" "m \<le> N" "N \<le> length zs"
    using z(2) Suc.prems by simp_all
  obtain ys where y: "repeat_shrinking step zs m = Some ys" "length ys = length zs"
    "mset ys = mset zs" "\<forall>k. N \<le> k \<longrightarrow> ys ! k = zs ! k"
    "\<forall>a b. a < b \<and> b < N \<longrightarrow> \<not> cmp (ys ! b) (ys ! a)"
    using Suc.IH[OF p z(6) i2 i3] by blast
  have "\<forall>k. N \<le> k \<longrightarrow> ys ! k = xs ! k" using y(4) z(4) Suc.prems(2) by simp
  then show ?case using z(1,2,3) y by simp
qed

lemma repeat_shrinking_ascending:
  assumes L: "valid_layout F C" and swo: "strict_weak_order cmp"
    and step_ok: "\<And>xs m. 1 \<le> m \<Longrightarrow> m \<le> length xs \<Longrightarrow> length xs \<le> SIZE_MAX
        \<Longrightarrow> heap_from F C cmp xs m 0
        \<Longrightarrow> \<exists>ys. step xs m = Some ys \<and> length ys = length xs \<and> mset ys = mset xs
              \<and> (\<forall>k. m \<le> k \<longrightarrow> ys ! k = xs ! k) \<and> ys ! (m - 1) = xs ! 0
              \<and> heap_from F C cmp ys (m - 1) 0"
    and len: "length xs \<le> SIZE_MAX" and n: "n \<le> length xs"
    and H: "heap_from F C cmp xs n 0"
  shows "\<exists>ys. repeat_shrinking step xs n = Some ys \<and> length ys = length xs
           \<and> mset (take n ys) = mset (take n xs) \<and> drop n ys = drop n xs
           \<and> ascending cmp (take n ys)"
proof -
  have v2: "\<forall>a b. a < n \<and> n \<le> b \<and> b < n \<longrightarrow> \<not> cmp (xs ! b) (xs ! a)" by auto
  have v3: "\<forall>a b. n \<le> a \<and> a < b \<and> b < n \<longrightarrow> \<not> cmp (xs ! b) (xs ! a)" by auto
  obtain ys where y: "repeat_shrinking step xs n = Some ys" "length ys = length xs"
    "mset ys = mset xs" "\<forall>k. n \<le> k \<longrightarrow> ys ! k = xs ! k"
    "\<forall>a b. a < b \<and> b < n \<longrightarrow> \<not> cmp (ys ! b) (ys ! a)"
    using repeat_shrinking_sorted[OF L swo step_ok len order_refl n H v2 v3] by blast
  have "ascending cmp (take n ys)"
    unfolding ascending_nth using y(5) by simp
  then show ?thesis using y(1,2) perm_range[OF y(2,3,4)] by simp
qed

lemma pop_heap_step:
  assumes L: "valid_layout F C" and swo: "strict_weak_order cmp"
    and m: "1 \<le> m" "m \<le> length xs" and len: "length xs \<le> SIZE_MAX"
    and H: "heap_from F C cmp xs m 0"
  shows "\<exists>ys. pop_heap F C cmp xs m = Some ys \<and> length ys = length xs \<and> mset ys = mset xs
           \<and> (\<forall>k. m \<le> k \<longrightarrow> ys ! k = xs ! k) \<and> ys ! (m - 1) = xs ! 0
           \<and> heap_from F C cmp ys (m - 1) 0"
proof (cases "1 < m")
  case True
  then have m2: "2 \<le> m" by simp
  obtain ys where y: "pop_heap_priv F C cmp xs m = Some ys" "length ys = length xs"
    "mset ys = mset xs" "\<forall>i. m \<le> i \<longrightarrow> ys ! i = xs ! i" "ys ! (m - 1) = xs ! 0"
    using pop_heap_priv_perm[OF L len m(2) m2, of cmp] by blast
  have "heap_from F C cmp ys (m - 1) 0"
    using L swo len m(2) m2 H y(1) by (rule pop_heap_priv_heap)
  then show ?thesis using y by (simp add: pop_heap_eq(1)[OF True])
next
  case False
  have e: "pop_heap F C cmp xs m = Some xs" using False by (rule pop_heap_eq(2))
  have "m - 1 = 0" using False by simp
  then have "heap_from F C cmp xs (m - 1) 0" by (simp add: heap_from_def)
  then show ?thesis unfolding e using False m(1) by simp
qed

lemma remove_from_heap_step:
  assumes L: "valid_layout F C" and swo: "strict_weak_order cmp"
    and m: "1 \<le> m" "m \<le> length xs" and len: "length xs \<le> SIZE_MAX"
    and H: "heap_from F C cmp xs m 0"
  shows "\<exists>ys. remove_from_heap F C cmp xs 0 m = Some ys \<and> length ys = length xs
           \<and> mset ys = mset xs
           \<and> (\<forall>k. m \<le> k \<longrightarrow> ys ! k = xs ! k) \<and> ys ! (m - 1) = xs ! 0
           \<and> heap_from F C cmp ys (m - 1) 0"
proof -
  have i: "0 < m" using m(1) by simp
  obtain ys where y: "remove_from_heap F C cmp xs 0 m = Some ys" "length ys = length xs"
    "mset ys = mset xs" "\<forall>k. m \<le> k \<longrightarrow> ys ! k = xs ! k" "ys ! (m - 1) = xs ! 0"
    using remove_from_heap_perm[OF L len m(2) i, of cmp] by blast
  have "heap_from F C cmp ys (m - 1) 0"
    using L swo len m(2) i H y(1) by (rule remove_from_heap_heap)
  then show ?thesis using y by simp
qed

lemma sort_heap_loop_eq:
  "sort_heap_loop F C cmp xs n = repeat_shrinking (pop_heap F C cmp) xs n"
proof (induction n arbitrary: xs)
  case 0
  show ?case by (subst sort_heap_loop.simps) simp
next
  case (Suc m)
  show ?case
  proof (cases "1 < Suc m")
    case True
    show ?thesis
      using True Suc.IH
      by (subst sort_heap_loop.simps) (simp add: pop_heap_eq(1)[OF True])
  next
    case False
    then have m: "m = 0" by simp
    show ?thesis unfolding m
      by (subst sort_heap_loop.simps) (simp add: pop_heap_def)
  qed
qed

lemma heap_sort_spec:
  assumes L: "valid_layout F C" and swo: "strict_weak_order cmp"
    and len: "length xs \<le> SIZE_MAX" and n: "n \<le> length xs"
  shows "\<exists>hs ys. make_heap F C cmp xs n = Some hs \<and> sort_heap F C cmp hs n = Some ys
           \<and> length ys = length xs \<and> ascending cmp (take n ys)
           \<and> mset (take n ys) = mset (take n xs) \<and> drop n ys = drop n xs"
proof -
  obtain hs where h: "make_heap F C cmp xs n = Some hs" "length hs = length xs"
    "mset hs = mset xs" "\<forall>k. n \<le> k \<longrightarrow> hs ! k = xs ! k"
    using make_heap_perm[OF L len n, of cmp] by blast
  have H: "heap_from F C cmp hs n 0" using L swo len n h(1) by (rule make_heap_heap)
  have p: "length hs \<le> SIZE_MAX" "n \<le> length hs" using h(2) len n by simp_all
  obtain ys where y: "repeat_shrinking (pop_heap F C cmp) hs n = Some ys"
    "length ys = length hs" "mset (take n ys) = mset (take n hs)" "drop n ys = drop n hs"
    "ascending cmp (take n ys)"
    using repeat_shrinking_ascending[OF L swo pop_heap_step[OF L swo] p H] by blast
  have "sort_heap F C cmp hs n = Some ys" using y(1) by (simp add: sort_heap_def sort_heap_loop_eq)
  then show ?thesis using h(1,2) y(2,3,4,5) perm_range[OF h(2,3,4)] by simp
qed

lemma repeat_shrinking_3:
  assumes "step xs 3 = Some a" and "step a 2 = Some b" and "step b 1 = Some c"
  shows "repeat_shrinking step xs 3 = Some c"
  using assms by (simp add: numeral_3_eq_3 numeral_2_eq_2)

section \<open>N-way merge\<close>

subsection \<open>The heap algorithms compare only items of the range\<close>

text \<open>Two comparators that agree on a set \<open>S\<close> give the same results on a range whose items
  are in \<open>S\<close>. In \<open>nway_merge\<close> the ranges of the active part of the array are non-empty, so
  \<open>nway_merge_less_comparer\<close> is never consulted on an exhausted range there, and may be
  replaced by \<open>range_order\<close>.\<close>

lemma max_child_offset_cong:
  assumes agr: "\<And>a b. a \<in> S \<Longrightarrow> b \<in> S \<Longrightarrow> c1 a b = c2 a b"
    and S: "\<forall>i<n. xs ! i \<in> S" and c: "c + m \<le> n" and n: "n \<le> SIZE_MAX"
  shows "max_child_offset c1 xs m c = max_child_offset c2 xs m c"
  using c
proof (induction m)
  case 0
  show ?case by (simp add: max_child_offset_def)
next
  case (Suc m)
  show ?case
  proof (cases "m = 0")
    case True
    then show ?thesis by (simp add: max_child_offset_def)
  next
    case False
    then have m1: "1 \<le> m" by simp
    let ?j = "max_child_offset c2 xs m c"
    have ih: "max_child_offset c1 xs m c = ?j" using Suc by simp
    have j: "?j < m" using m1 by (rule max_child_offset_less)
    have w1: "wadd c m = c + m" using Suc.prems n by (intro wadd_eq) linarith
    have w2: "wadd c ?j = c + ?j" using Suc.prems n j by (intro wadd_eq) linarith
    have s: "max_child_offset cc xs (Suc m) c
               = (if \<not> cc (xs ! wadd c m) (xs ! wadd c (max_child_offset cc xs m c))
                  then m else max_child_offset cc xs m c)" for cc
      using m1 by (simp add: max_child_offset_def)
    have a: "xs ! (c + m) \<in> S" using S Suc.prems by simp
    have b: "xs ! (c + ?j) \<in> S" using S Suc.prems j by simp
    have "c1 (xs ! (c + m)) (xs ! (c + ?j)) = c2 (xs ! (c + m)) (xs ! (c + ?j))"
      using a b by (rule agr)
    then show ?thesis unfolding s ih w1 w2 by simp
  qed
qed

lemma sift_up_cong:
  assumes L: "valid_layout F C" and agr: "\<And>a b. a \<in> S \<Longrightarrow> b \<in> S \<Longrightarrow> c1 a b = c2 a b"
    and len: "length xs \<le> SIZE_MAX" and h: "h < length xs"
    and S: "\<forall>i<h. xs ! i \<in> S" and item: "item \<in> S"
  shows "sift_up F C c1 xs root h item = sift_up F C c2 xs root h item"
  using len h S
proof (induction h arbitrary: xs rule: less_induct)
  case (less h)
  show ?case
  proof (cases "root < h")
    case False
    have "sift_up F C cc xs root h item = Some (xs[h := item])" for cc
      using less.prems False by (subst sift_up.simps) simp
    then show ?thesis by simp
  next
    case True
    let ?p = "get_parent_index F C h"
    let ?xs = "xs[h := xs ! ?p]"
    have p: "?p < h" using L True less.prems by (intro get_parent_index_less) linarith+
    have e: "sift_up F C cc xs root h item
               = (if \<not> cc (xs ! ?p) item then Some (xs[h := item])
                  else sift_up F C cc ?xs root ?p item)" for cc
      using less.prems True p by (subst sift_up.simps) (simp add: Let_def)
    have a: "xs ! ?p \<in> S" using less.prems(3) p by simp
    have c: "c1 (xs ! ?p) item = c2 (xs ! ?p) item" using a item by (rule agr)
    have S': "\<forall>i<?p. ?xs ! i \<in> S" using less.prems(3) p by simp
    have "sift_up F C c1 ?xs root ?p item = sift_up F C c2 ?xs root ?p item"
      using less.IH[OF p, of ?xs] less.prems p S' by simp
    then show ?thesis unfolding e c by simp
  qed
qed

lemma sift_down_loop_cong:
  assumes L: "valid_layout F C" and agr: "\<And>a b. a \<in> S \<Longrightarrow> b \<in> S \<Longrightarrow> c1 a b = c2 a b"
    and len: "length xs \<le> SIZE_MAX" and n: "n \<le> length xs"
    and h: "h < n" and rem: "rem = (n - 1) mod F" and S: "\<forall>i<n. xs ! i \<in> S"
  shows "sift_down_loop F C c1 xs n rem h = sift_down_loop F C c2 xs n rem h
       \<and> (\<forall>ys h'. sift_down_loop F C c2 xs n rem h = Some (ys, h') \<longrightarrow> (\<forall>i<n. ys ! i \<in> S))"
  using len n h S
proof (induction "n - h" arbitrary: xs h rule: less_induct)
  case less
  let ?c = "get_child_index F C h"
  note lf = layout_facts[OF L]
  note step1 = sift_down_loop_step[OF L less.prems(1,2,3) rem, of c1]
  note step2 = sift_down_loop_step[OF L less.prems(1,2,3) rem, of c2]
  have n1: "1 \<le> n" and nS: "n \<le> SIZE_MAX" using less.prems by linarith+
  have rF: "rem < F" unfolding rem using lf(2) by simp
  consider (none) "n \<le> ?c" | (partial) "n - rem \<le> ?c" "?c < n" | (full) "?c < n - rem"
    by linarith
  then show ?case
  proof cases
    case none
    show ?thesis unfolding step1(1)[OF none] step2(1)[OF none] using less.prems(4) by simp
  next
    case partial
    let ?j = "max_child_offset c2 xs rem ?c"
    have g: "?c + rem = n \<and> 1 \<le> rem"
      unfolding rem using L n1 nS less.prems(3) partial[unfolded rem] by (rule child_group_partial)
    have le: "?c + rem \<le> n" using g by simp
    have je: "max_child_offset c1 xs rem ?c = ?j"
      using agr less.prems(4) le nS by (rule max_child_offset_cong)
    have j: "?j < rem" using g by (intro max_child_offset_less) simp
    have cj: "?c + ?j < n" using j g by linarith
    have "\<forall>i<n. xs[h := xs ! (?c + ?j)] ! i \<in> S"
      using less.prems(2,3,4) cj by (simp add: nth_list_update)
    then show ?thesis unfolding step1(2)[OF partial] step2(2)[OF partial] je by simp
  next
    case full
    let ?j = "max_child_offset c2 xs F ?c"
    let ?xs = "xs[h := xs ! (?c + ?j)]"
    have g: "?c + F \<le> n - rem"
      unfolding rem using L n1 nS less.prems(3) full[unfolded rem] by (rule child_group_full)
    have le: "?c + F \<le> n" using g by linarith
    have je: "max_child_offset c1 xs F ?c = ?j"
      using agr less.prems(4) le nS by (rule max_child_offset_cong)
    have j: "?j < F" using lf(2) by (intro max_child_offset_less) simp
    have cj: "?c + ?j < n" using j g by linarith
    have pc: "get_parent_index F C (?c + ?j) = h \<and> 1 \<le> ?c + ?j \<and> h < ?c + ?j"
      using L less.prems(3) nS j cj by (rule group_is_child)
    have S': "\<forall>i<n. ?xs ! i \<in> S"
      using less.prems(2,3,4) cj by (simp add: nth_list_update)
    have d: "n - (?c + ?j) < n - h" using pc cj by linarith
    have l': "length ?xs \<le> SIZE_MAX" "n \<le> length ?xs" using less.prems by simp_all
    show ?thesis unfolding step1(3)[OF full] step2(3)[OF full] je
      using less.hyps[OF d l' cj S'] .
  qed
qed

lemma sift_down_cong:
  assumes L: "valid_layout F C" and agr: "\<And>a b. a \<in> S \<Longrightarrow> b \<in> S \<Longrightarrow> c1 a b = c2 a b"
    and len: "length xs \<le> SIZE_MAX" and n: "n \<le> length xs"
    and h: "h < n" and S: "\<forall>i<n. xs ! i \<in> S" and item: "item \<in> S"
  shows "sift_down F C c1 xs n h item = sift_down F C c2 xs n h item"
proof -
  have w: "wsub n 1 = n - 1" using h n len by (intro wsub_eq) linarith+
  obtain zs h' where z: "sift_down_loop F C c2 xs n ((n - 1) mod F) h = Some (zs, h')"
    "length zs = length xs" "h' < n"
    using sift_down_loop_perm[OF L len n h refl, of c2] by blast
  have cg: "sift_down_loop F C c1 xs n ((n - 1) mod F) h
              = sift_down_loop F C c2 xs n ((n - 1) mod F) h
            \<and> (\<forall>ys h'. sift_down_loop F C c2 xs n ((n - 1) mod F) h = Some (ys, h')
                  \<longrightarrow> (\<forall>i<n. ys ! i \<in> S))"
    using L agr len n h refl S by (rule sift_down_loop_cong)
  have z1: "sift_down_loop F C c1 xs n ((n - 1) mod F) h = Some (zs, h')"
    using cg z(1) by simp
  have Sz: "\<forall>i<n. zs ! i \<in> S" using cg z(1) by blast
  have Sz': "\<forall>i<h'. zs ! i \<in> S" using Sz z(3) by simp
  have lz: "length zs \<le> SIZE_MAX" "h' < length zs" using z(2,3) len n by linarith+
  have "sift_up F C c1 zs h h' item = sift_up F C c2 zs h h' item"
    using L agr lz Sz' item by (rule sift_up_cong)
  then show ?thesis unfolding sift_down_def Let_def w z(1) z1 by simp
qed

lemma range_closed:
  assumes "mset (take n ys) = mset (take n xs)" "n \<le> length xs" "length ys = length xs"
    and "\<forall>i<n. xs ! i \<in> S"
  shows "\<forall>i<n. ys ! i \<in> S"
proof (intro allI impI)
  fix i assume i: "i < n"
  have "ys ! i \<in> set (take n ys)" using i assms(2,3) by (metis length_take min.absorb2 nth_mem nth_take)
  then have "ys ! i \<in> set (take n xs)" using assms(1) by (metis set_mset_mset)
  then obtain k where "k < length (take n xs)" "take n xs ! k = ys ! i"
    by (auto simp: in_set_conv_nth)
  then show "ys ! i \<in> S" using assms(2,4) by (metis length_take min.absorb2 nth_take)
qed

lemma restore_heap_after_item_decrease_cong:
  assumes L: "valid_layout F C" and agr: "\<And>a b. a \<in> S \<Longrightarrow> b \<in> S \<Longrightarrow> c1 a b = c2 a b"
    and len: "length xs \<le> SIZE_MAX" and n: "n \<le> length xs"
    and i: "i < n" and S: "\<forall>i<n. xs ! i \<in> S"
  shows "restore_heap_after_item_decrease F C c1 xs i n
           = restore_heap_after_item_decrease F C c2 xs i n"
proof -
  have "xs ! i \<in> S" using S i by simp
  then have "sift_down F C c1 xs n i (xs ! i) = sift_down F C c2 xs n i (xs ! i)"
    using L agr len n i S by (intro sift_down_cong) 
  then show ?thesis by (simp add: restore_heap_after_item_decrease_def)
qed

lemma make_heap_loop_cong:
  assumes L: "valid_layout F C" and agr: "\<And>a b. a \<in> S \<Longrightarrow> b \<in> S \<Longrightarrow> c1 a b = c2 a b"
    and len: "length xs \<le> SIZE_MAX" and n: "n \<le> length xs"
    and i: "i < n" and S: "\<forall>i<n. xs ! i \<in> S"
  shows "make_heap_loop F C c1 xs n i = make_heap_loop F C c2 xs n i"
  using len n i S
proof (induction i arbitrary: xs)
  case 0
  have "xs ! 0 \<in> S" using 0 by simp
  then have "sift_down F C c1 xs n 0 (xs ! 0) = sift_down F C c2 xs n 0 (xs ! 0)"
    using L agr 0 by (intro sift_down_cong)
  then show ?case by simp
next
  case (Suc i)
  have a: "xs ! Suc i \<in> S" using Suc.prems by simp
  have e: "sift_down F C c1 xs n (Suc i) (xs ! Suc i) = sift_down F C c2 xs n (Suc i) (xs ! Suc i)"
    using L agr Suc.prems a by (intro sift_down_cong)
  obtain ys where y: "sift_down F C c2 xs n (Suc i) (xs ! Suc i) = Some ys"
    "length ys = length xs" "mset ys = mset (xs[Suc i := xs ! Suc i])"
    "\<forall>k. n \<le> k \<longrightarrow> ys ! k = xs ! k"
    using sift_down_perm[OF L Suc.prems(1,2,3), of c2 "xs ! Suc i"] by blast
  have "mset ys = mset xs" using y(3) by simp
  then have "mset (take n ys) = mset (take n xs)" using perm_range[OF y(2) _ y(4)] by simp
  then have Sy: "\<forall>i<n. ys ! i \<in> S" using Suc.prems(2) y(2) Suc.prems(4) by (rule range_closed)
  have "make_heap_loop F C c1 ys n i = make_heap_loop F C c2 ys n i"
    using Suc.IH[of ys] Suc.prems y(2) Sy by simp
  then show ?case using e y(1) by simp
qed

lemma make_heap_cong:
  assumes L: "valid_layout F C" and agr: "\<And>a b. a \<in> S \<Longrightarrow> b \<in> S \<Longrightarrow> c1 a b = c2 a b"
    and len: "length xs \<le> SIZE_MAX" and n: "n \<le> length xs" and S: "\<forall>i<n. xs ! i \<in> S"
  shows "make_heap F C c1 xs n = make_heap F C c2 xs n"
proof (cases "1 < n")
  case False
  then show ?thesis by (simp add: make_heap_def)
next
  case True
  then have n2: "2 \<le> n" by simp
  have nS: "n \<le> SIZE_MAX" using len n by linarith
  let ?i = "if C = 1 then wsub n 2 div F else wsub n 2"
  have "?i < n" using L n2 nS by (rule make_heap_start(1))
  then have "make_heap_loop F C c1 xs n ?i = make_heap_loop F C c2 xs n ?i"
    using L agr len n S by (intro make_heap_loop_cong)
  then show ?thesis using True by (simp add: make_heap_def Let_def)
qed

subsection \<open>The order on input ranges\<close>

lemma range_order_swo:
  assumes swo: "strict_weak_order cmp"
  shows "strict_weak_order (range_order cmp)"
  unfolding strict_weak_order_def
proof (intro conjI allI impI)
  fix a show "\<not> range_order cmp a a"
    using swo_irrefl[OF swo] by (simp add: range_order_def split: list.splits)
next
  fix a b c assume "range_order cmp a b" "range_order cmp b c"
  then show "range_order cmp a c"
    using swo_trans[OF swo] by (auto simp: range_order_def split: list.splits)
next
  fix a b c assume "\<not> range_order cmp a b" "\<not> range_order cmp b c"
  then show "\<not> range_order cmp a c"
    using swo_ntrans[OF swo] by (auto simp: range_order_def split: list.splits)
qed

lemma range_order_agree:
  assumes "a \<in> {r. r \<noteq> []}" "b \<in> {r. r \<noteq> []}"
  shows "nway_merge_less_comparer cmp a b = range_order cmp a b"
  using assms by (auto simp: nway_merge_less_comparer_def range_order_def split: list.splits)

lemma mset_concat_sum: "mset (concat xs) = sum_mset (image_mset mset (mset xs))"
  by (induction xs) simp_all

lemma mset_concat_cong: "mset xs = mset ys \<Longrightarrow> mset (concat xs) = mset (concat ys)"
  by (simp add: mset_concat_sum)

lemma mset_concat_add:
  assumes "mset xs + {#a#} = mset ys"
  shows "mset (concat xs) + mset a = mset (concat ys)"
proof -
  have "sum_mset (image_mset mset (mset xs + {#a#})) = sum_mset (image_mset mset (mset ys))"
    using assms by simp
  then show ?thesis by (simp add: mset_concat_sum add.commute)
qed

lemma take_swap_root:
  assumes "1 \<le> k" "Suc k \<le> length xs"
  shows "mset (take k (xs[0 := xs ! k, k := v])) + {#xs ! 0#} = mset (take (Suc k) xs)"
proof -
  have t: "take k (xs[0 := xs ! k, k := v]) = (take k xs)[0 := xs ! k]"
    using assms by (simp add: take_update_swap list_update_beyond)
  have z: "0 < length (take k xs)" using assms by simp
  have "mset ((take k xs)[0 := xs ! k]) = add_mset (xs ! k) (mset (take k xs) - {#take k xs ! 0#})"
    using z by (rule mset_update)
  moreover have "take k xs ! 0 = xs ! 0" using assms by simp
  moreover have "xs ! 0 \<in># mset (take k xs)"
    using z nth_mem[of 0 "take k xs"] assms by simp
  moreover have "take (Suc k) xs = take k xs @ [xs ! k]"
    using assms by (intro take_Suc_conv_app_nth) simp
  ultimately show ?thesis unfolding t by simp
qed

lemma take_replace_root:
  assumes "1 \<le> m" "m \<le> length xs"
  shows "mset (take m (xs[0 := r])) + {#xs ! 0#} = mset (take m xs) + {#r#}"
proof -
  obtain a rest where x: "xs = a # rest" using assms by (cases xs) auto
  obtain k where m: "m = Suc k" using assms(1) by (cases m) auto
  show ?thesis unfolding x m by simp
qed

lemma nway_merge_loop_step:
  assumes "first \<noteq> []" "first ! 0 = x # r"
  shows "nway_merge_loop F C cmp first m out =
     (let output' = out @ [x];
          first' = first[0 := r]
      in if r = [] then
           (let last_off' = wsub m 1 in
            if last_off' = 0 then Some (first', output')
            else if last_off' < length first' then
              Option.bind
                (restore_heap_after_item_decrease F C (nway_merge_less_comparer cmp)
                   (first'[0 := first' ! last_off', last_off' := first' ! 0]) 0 last_off')
                (\<lambda>first''. nway_merge_loop F C cmp first'' last_off' output')
            else None)
         else
           Option.bind
             (restore_heap_after_item_decrease F C (nway_merge_less_comparer cmp) first' 0 m)
             (\<lambda>first''. nway_merge_loop F C cmp first'' m output'))"
proof (cases first)
  case Nil
  then show ?thesis using assms by simp
next
  case (Cons a rest)
  then have a: "a = x # r" using assms by simp
  show ?thesis unfolding Cons a by (subst nway_merge_loop.simps) (simp add: Let_def)
qed

subsection \<open>The merge loop\<close>

lemma ascending_head_least:
  assumes swo: "strict_weak_order cmp" and a: "ascending cmp (h # t)" and y: "y \<in> set (h # t)"
  shows "\<not> cmp y h"
  using a y swo_irrefl[OF swo] by (auto simp: ascending_def)

lemma ascending_tail: "ascending cmp (h # t) \<Longrightarrow> ascending cmp t"
  by (simp add: ascending_def)

lemma ascending_snoc:
  assumes "ascending cmp out" "\<forall>a\<in>set out. \<not> cmp x a"
  shows "ascending cmp (out @ [x])"
  using assms by (simp add: ascending_def sorted_wrt_append)

lemma nway_merge_loop_spec:
  assumes L: "valid_layout F C" and swo: "strict_weak_order cmp"
  shows "length first \<le> SIZE_MAX \<Longrightarrow> 1 \<le> m \<Longrightarrow> m \<le> length first
     \<Longrightarrow> \<forall>i<m. first ! i \<noteq> [] \<and> ascending cmp (first ! i)
     \<Longrightarrow> heap_from F C (range_order cmp) first m 0
     \<Longrightarrow> ascending cmp out
     \<Longrightarrow> \<forall>i<m. \<forall>y\<in>set (first ! i). \<forall>z\<in>set out. \<not> cmp y z
     \<Longrightarrow> \<exists>first' out'. nway_merge_loop F C cmp first m out = Some (first', out')
           \<and> ascending cmp out' \<and> mset out' = mset out + mset (concat (take m first))"
proof (induction "length (concat (take m first))" arbitrary: first m out rule: less_induct)
  case less
  note len = less.prems(1) and m1 = less.prems(2) and m = less.prems(3) and ne = less.prems(4)
    and H = less.prems(5) and asc = less.prems(6) and lo = less.prems(7)
  let ?R = "range_order cmp"
  let ?N = "nway_merge_less_comparer cmp"
  let ?NE = "{r :: 'a list. r \<noteq> []}"
  have swoR: "strict_weak_order ?R" using swo by (rule range_order_swo)
  have mS: "m \<le> SIZE_MAX" using len m by linarith
  have fne: "first \<noteq> []" using m1 m by auto
  obtain x r where r0: "first ! 0 = x # r" using ne m1 by (cases "first ! 0") auto
  have a0: "ascending cmp (x # r)" using ne m1 r0 by (metis less_eq_Suc_le One_nat_def)
  have rm: "\<not> cmp y x" if i: "i < m" and y: "y \<in> set (first ! i)" for i y
  proof -
    obtain h t where ht: "first ! i = h # t" using ne i by (cases "first ! i") auto
    have "\<not> ?R (first ! 0) (first ! i)" using L swoR H mS i by (rule heap_root_max)
    then have hx: "\<not> cmp h x" by (simp add: range_order_def r0 ht)
    have "ascending cmp (h # t)" using ne i ht by metis
    then have "\<not> cmp y h" using y ht ascending_head_least[OF swo] by metis
    then show ?thesis using hx by (rule swo_ntrans[OF swo])
  qed
  have xin: "x \<in> set (first ! 0)" using r0 by simp
  have asc': "ascending cmp (out @ [x])"
  proof (rule ascending_snoc[OF asc], intro ballI)
    fix a assume "a \<in> set out"
    then show "\<not> cmp x a" using lo m1 xin by (metis less_eq_Suc_le One_nat_def)
  qed
  have lo0: "\<not> cmp y z" if "i < m" "y \<in> set (first ! i)" "z \<in> set (out @ [x])" for i y z
    using that lo rm by auto
  note step = nway_merge_loop_step[OF fne r0, of F C cmp m out]
  have next_round: "\<exists>first' out'. nway_merge_loop F C cmp ys k (out @ [x]) = Some (first', out')
           \<and> ascending cmp out' \<and> mset out' = mset out + mset (concat (take m first))"
    if ly: "length ys = length first" and k1: "1 \<le> k" and km: "k \<le> m"
      and Hy: "heap_from F C ?R ys k 0"
      and my: "mset (take k ys) = mset (take k g)" and lg: "length g = length first"
      and sub: "\<forall>i<k. \<exists>j<m. g ! i \<noteq> [] \<and> ascending cmp (g ! i) \<and> set (g ! i) \<subseteq> set (first ! j)"
      and acc: "mset (concat (take k g)) + {#x#} = mset (concat (take m first))"
    for ys k g
  proof -
    let ?S = "{r. r \<noteq> [] \<and> ascending cmp r \<and> (\<forall>y\<in>set r. \<forall>z\<in>set (out @ [x]). \<not> cmp y z)}"
    have kg: "k \<le> length g" using km m lg by linarith
    have gS: "\<forall>i<k. g ! i \<in> ?S"
    proof (intro allI impI)
      fix i assume "i < k"
      then obtain j where j: "j < m" "g ! i \<noteq> []" "ascending cmp (g ! i)"
        "set (g ! i) \<subseteq> set (first ! j)" using sub by blast
      have "\<forall>y\<in>set (g ! i). \<forall>z\<in>set (out @ [x]). \<not> cmp y z"
        using j(1,4) lo0 by blast
      then show "g ! i \<in> ?S" using j(2,3) by simp
    qed
    have yS: "\<forall>i<k. ys ! i \<in> ?S"
      using my kg _ gS by (rule range_closed) (simp add: ly lg)
    have c: "mset (concat (take k ys)) = mset (concat (take k g))"
      using my by (rule mset_concat_cong)
    have "size (mset (concat (take k ys))) + 1 = size (mset (concat (take m first)))"
      unfolding c acc[symmetric] by simp
    then have d: "length (concat (take k ys)) < length (concat (take m first))"
      by (simp del: length_concat)
    have p1: "length ys \<le> SIZE_MAX" using ly len by simp
    have p3: "k \<le> length ys" using km m ly by linarith
    have p4: "\<forall>i<k. ys ! i \<noteq> [] \<and> ascending cmp (ys ! i)" using yS by simp
    have p7: "\<forall>i<k. \<forall>y\<in>set (ys ! i). \<forall>z\<in>set (out @ [x]). \<not> cmp y z" using yS by simp
    from less.hyps[OF d p1 k1 p3 p4 Hy asc' p7]
    obtain first' out' where r: "nway_merge_loop F C cmp ys k (out @ [x]) = Some (first', out')"
      "ascending cmp out'" "mset out' = mset (out @ [x]) + mset (concat (take k ys))"
      by blast
    have "mset out' = mset out + mset (concat (take m first))"
      unfolding r(3) c acc[symmetric] by simp
    then show ?thesis using r(1,2) by blast
  qed
  show ?case
  proof (cases "r = []")
    case False
    let ?g = "first[0 := r]"
    have lg: "length ?g = length first" by simp
    have gl: "length ?g \<le> SIZE_MAX" "m \<le> length ?g" "0 < m" using len m m1 by simp_all
    have gi: "?g ! i = (if i = 0 then r else first ! i)" if "i < m" for i
      using that m fne by (simp add: nth_list_update)
    have gNE: "\<forall>i<m. ?g ! i \<in> ?NE" using gi ne False by simp
    have cg: "restore_heap_after_item_decrease F C ?N ?g 0 m
                = restore_heap_after_item_decrease F C ?R ?g 0 m"
      using L range_order_agree gl gNE by (rule restore_heap_after_item_decrease_cong)
    obtain ys where y: "restore_heap_after_item_decrease F C ?R ?g 0 m = Some ys"
      "length ys = length ?g" "mset ys = mset ?g" "\<forall>k. m \<le> k \<longrightarrow> ys ! k = ?g ! k"
      using restore_heap_after_item_decrease_perm[OF L gl, of ?R] by blast
    have Hg: "heap_from F C ?R (?g[0 := first ! 0]) m 0" using H by simp
    obtain h t where ht: "r = h # t" using False by (cases r) auto
    have "\<not> cmp h x" using a0 ht by (simp add: ascending_def)
    then have dec: "\<not> ?R (first ! 0) (?g ! 0)"
      using fne by (simp add: range_order_def r0 ht)
    have Hy: "heap_from F C ?R ys m 0"
      using L swoR gl Hg dec y(1) by (rule restore_heap_after_item_decrease_heap)
    have my: "mset (take m ys) = mset (take m ?g)"
      using perm_range[OF y(2,3,4)] by simp
    have ar: "ascending cmp r" using a0 by (rule ascending_tail)
    have sub: "\<forall>i<m. \<exists>j<m. ?g ! i \<noteq> [] \<and> ascending cmp (?g ! i) \<and> set (?g ! i) \<subseteq> set (first ! j)"
    proof (intro allI impI)
      fix i assume i: "i < m"
      show "\<exists>j<m. ?g ! i \<noteq> [] \<and> ascending cmp (?g ! i) \<and> set (?g ! i) \<subseteq> set (first ! j)"
      proof (cases "i = 0")
        case True
        then show ?thesis using gi[OF i] False ar r0 i by (intro exI[of _ 0]) auto
      next
        case False
        then show ?thesis using gi[OF i] ne i by (intro exI[of _ i]) auto
      qed
    qed
    have "mset (take m ?g) + {#first ! 0#} = mset (take m first) + {#r#}"
      using m1 m by (rule take_replace_root)
    then have "sum_mset (image_mset mset (mset (take m ?g) + {#first ! 0#}))
                 = sum_mset (image_mset mset (mset (take m first) + {#r#}))" by simp
    then have acc: "mset (concat (take m ?g)) + {#x#} = mset (concat (take m first))"
      by (simp add: mset_concat_sum r0)
    have ly: "length ys = length first" using y(2) by simp
    from next_round[OF ly m1 order_refl Hy my lg sub acc]
    obtain first' out' where n: "nway_merge_loop F C cmp ys m (out @ [x]) = Some (first', out')"
      "ascending cmp out'" "mset out' = mset out + mset (concat (take m first))" by blast
    have "nway_merge_loop F C cmp first m out = Some (first', out')"
      unfolding step Let_def using False cg y(1) n(1) by simp
    then show ?thesis using n(2,3) by blast
  next
    case True
    have w: "wsub m 1 = m - 1" using m1 mS by (rule wsub_eq)
    show ?thesis
    proof (cases "m = 1")
      case m1': True
      have "take m first = [first ! 0]" using m1' fne by (cases first) simp_all
      then have "mset (out @ [x]) = mset out + mset (concat (take m first))"
        using r0 True by simp
      moreover have "nway_merge_loop F C cmp first m out = Some (first[0 := r], out @ [x])"
        unfolding step Let_def w using True m1' by simp
      ultimately show ?thesis using asc' by blast
    next
      case False
      let ?k = "m - 1"
      let ?g = "first[0 := first ! ?k, ?k := []]"
      have k1: "1 \<le> ?k" and km: "?k < m" and kl: "?k < length first" and sk: "Suc ?k = m"
        using False m1 m by linarith+
      have ge: "(first[0 := r])[0 := first[0 := r] ! ?k, ?k := first[0 := r] ! 0] = ?g"
        using k1 kl True fne by (simp add: nth_list_update)
      have lg: "length ?g = length first" by simp
      have gl: "length ?g \<le> SIZE_MAX" "?k \<le> length ?g" "0 < ?k" using len kl k1 by simp_all
      have gi: "?g ! i = (if i = 0 then first ! ?k else first ! i)" if "i < ?k" for i
        using that kl fne by (simp add: nth_list_update)
      have gNE: "\<forall>i<?k. ?g ! i \<in> ?NE" using gi ne km by simp
      have cg: "restore_heap_after_item_decrease F C ?N ?g 0 ?k
                  = restore_heap_after_item_decrease F C ?R ?g 0 ?k"
        using L range_order_agree gl gNE by (rule restore_heap_after_item_decrease_cong)
      obtain ys where y: "restore_heap_after_item_decrease F C ?R ?g 0 ?k = Some ys"
        "length ys = length ?g" "mset ys = mset ?g" "\<forall>i. ?k \<le> i \<longrightarrow> ys ! i = ?g ! i"
        using restore_heap_after_item_decrease_perm[OF L gl, of ?R] by blast
      have H': "heap_from F C ?R first ?k 0" using H by (rule heap_from_mono) simp_all
      have "(?g[0 := first ! 0]) ! i = first ! i" if "i < ?k" for i
      proof (cases "i = 0")
        case True
        then show ?thesis using fne by simp
      next
        case False
        moreover have "i \<noteq> ?k" using that by simp
        ultimately show ?thesis by simp
      qed
      then have eqs: "\<forall>i<?k. (?g[0 := first ! 0]) ! i = first ! i" by simp
      have kS: "?k \<le> SIZE_MAX" using mS by linarith
      have Hg: "heap_from F C ?R (?g[0 := first ! 0]) ?k 0"
        using H' eqs L kS by (rule heap_from_cong)
      have "\<not> ?R (first ! 0) (first ! ?k)" using L swoR H mS km by (rule heap_root_max)
      then have dec: "\<not> ?R (first ! 0) (?g ! 0)" using gi[of 0] k1 by simp
      have Hy: "heap_from F C ?R ys ?k 0"
        using L swoR gl Hg dec y(1) by (rule restore_heap_after_item_decrease_heap)
      have my: "mset (take ?k ys) = mset (take ?k ?g)"
        using perm_range[OF y(2,3,4)] by simp
      have sub: "\<forall>i<?k. \<exists>j<m. ?g ! i \<noteq> [] \<and> ascending cmp (?g ! i)
                    \<and> set (?g ! i) \<subseteq> set (first ! j)"
      proof (intro allI impI)
        fix i assume i: "i < ?k"
        show "\<exists>j<m. ?g ! i \<noteq> [] \<and> ascending cmp (?g ! i) \<and> set (?g ! i) \<subseteq> set (first ! j)"
        proof (cases "i = 0")
          case True
          then show ?thesis using gi[OF i] ne km by (intro exI[of _ ?k]) auto
        next
          case False
          then show ?thesis using gi[OF i] ne i km by (intro exI[of _ i]) auto
        qed
      qed
      have "mset (take ?k ?g) + {#first ! 0#} = mset (take (Suc ?k) first)"
        using k1 kl by (intro take_swap_root) simp_all
      then have "mset (concat (take ?k ?g)) + mset (first ! 0) = mset (concat (take (Suc ?k) first))"
        by (rule mset_concat_add)
      then have acc: "mset (concat (take ?k ?g)) + {#x#} = mset (concat (take m first))"
        unfolding sk r0 True by simp
      have ly: "length ys = length first" using y(2) by simp
      have km': "?k \<le> m" by simp
      from next_round[OF ly k1 km' Hy my lg sub acc]
      obtain first' out' where n: "nway_merge_loop F C cmp ys ?k (out @ [x]) = Some (first', out')"
        "ascending cmp out'" "mset out' = mset out + mset (concat (take m first))" by blast
      have k0: "\<not> m \<le> Suc 0" using k1 by linarith
      have "nway_merge_loop F C cmp first m out = Some (first', out')"
        unfolding step Let_def w ge using True k0 kl cg y(1) n(1) by simp
      then show ?thesis using n(2,3) by blast
    qed
  qed
qed


lemma nway_merge_spec:
  assumes L: "valid_layout F C" and swo: "strict_weak_order cmp"
    and len: "length first \<le> SIZE_MAX" and n1: "1 \<le> n" and n: "n \<le> length first"
    and ne: "\<forall>i<n. first ! i \<noteq> [] \<and> ascending cmp (first ! i)"
  shows "\<exists>first' out. nway_merge F C cmp first n = Some (first', out)
           \<and> ascending cmp out \<and> mset out = mset (concat (take n first))"
proof -
  let ?R = "range_order cmp"
  let ?N = "nway_merge_less_comparer cmp"
  let ?NE = "{r :: 'a list. r \<noteq> []}"
  let ?S = "{r. r \<noteq> [] \<and> ascending cmp r}"
  have swoR: "strict_weak_order ?R" using swo by (rule range_order_swo)
  have fNE: "\<forall>i<n. first ! i \<in> ?NE" using ne by simp
  have cg: "make_heap F C ?N first n = make_heap F C ?R first n"
    using L range_order_agree len n fNE by (rule make_heap_cong)
  obtain hs where h: "make_heap F C ?R first n = Some hs" "length hs = length first"
    "mset hs = mset first" "\<forall>k. n \<le> k \<longrightarrow> hs ! k = first ! k"
    using make_heap_perm[OF L len n, of ?R] by blast
  have H: "heap_from F C ?R hs n 0" using L swoR len n h(1) by (rule make_heap_heap)
  have mh: "mset (take n hs) = mset (take n first)" using perm_range[OF h(2,3,4)] by simp
  have fS: "\<forall>i<n. first ! i \<in> ?S" using ne by simp
  have hS: "\<forall>i<n. hs ! i \<in> ?S" using mh n h(2) fS by (rule range_closed)
  have p1: "length hs \<le> SIZE_MAX" and p3: "n \<le> length hs" using h(2) len n by simp_all
  have p4: "\<forall>i<n. hs ! i \<noteq> [] \<and> ascending cmp (hs ! i)" using hS by simp
  have p6: "ascending cmp []" by (simp add: ascending_def)
  have p7: "\<forall>i<n. \<forall>y\<in>set (hs ! i). \<forall>z\<in>set []. \<not> cmp y z" by simp
  from nway_merge_loop_spec[OF L swo p1 n1 p3 p4 H p6 p7]
  obtain first' out where r: "nway_merge_loop F C cmp hs n [] = Some (first', out)"
    "ascending cmp out" "mset out = mset [] + mset (concat (take n hs))" by blast
  have "mset (concat (take n hs)) = mset (concat (take n first))"
    using mh by (rule mset_concat_cong)
  then have "mset out = mset (concat (take n first))" using r(3) by simp
  moreover have "nway_merge F C cmp first n = Some (first', out)"
    unfolding nway_merge_def cg h(1) using r(1) by simp
  ultimately show ?thesis using r(2) by blast
qed

section \<open>Claims about sorting and removal\<close>

text \<open>
  Claim C2. For every sequence and every strict weak order (a reverse order is one),
  \<open>make_heap\<close> on the full range followed by \<open>sort_heap\<close> returns, and the range is then in
  ascending order, holds the items of the original range, and agrees with the reference full
  sort of the original range position by position up to equal rank; where the comparator
  ranks no two distinct values equal, it is the reference sort.
\<close>

theorem make_heap_sort_heap_sorts:
  assumes "valid_layout Fanout PageChunks" and "strict_weak_order less_comparer"
    and "length first \<le> SIZE_MAX" and "last_off \<le> length first"
  shows "\<exists>heap sorted.
           make_heap Fanout PageChunks less_comparer first last_off = Some heap
           \<and> sort_heap Fanout PageChunks less_comparer heap last_off = Some sorted
           \<and> ascending less_comparer (take last_off sorted)
           \<and> mset (take last_off sorted) = mset (take last_off first)
           \<and> list_all2 (equal_rank less_comparer) (take last_off sorted)
                (ref_sort less_comparer (take last_off first))
           \<and> ((\<forall>a b. equal_rank less_comparer a b \<longrightarrow> a = b)
                \<longrightarrow> take last_off sorted = ref_sort less_comparer (take last_off first))"
proof -
  let ?ref = "ref_sort less_comparer (take last_off first)"
  obtain hs ys where r:
    "make_heap Fanout PageChunks less_comparer first last_off = Some hs"
    "sort_heap Fanout PageChunks less_comparer hs last_off = Some ys"
    "ascending less_comparer (take last_off ys)"
    "mset (take last_off ys) = mset (take last_off first)"
    using heap_sort_spec[OF assms] by blast
  have a: "ascending less_comparer ?ref" using assms(2) by (rule ascending_ref_sort)
  have m: "mset (take last_off ys) = mset ?ref" using r(4) by (simp add: mset_ref_sort)
  have e: "list_all2 (equal_rank less_comparer) (take last_off ys) ?ref"
    using assms(2) r(3) a m by (rule ascending_perm_equal_rank)
  have u: "take last_off ys = ?ref" if "\<forall>a b. equal_rank less_comparer a b \<longrightarrow> a = b"
    using assms(2) r(3) a m that by (rule ascending_perm_unique)
  show ?thesis using r e u by blast
qed


theorem make_heap_sort_heap_sorts_witness:
  "valid_layout 3 2 \<and> strict_weak_order ((<) :: nat \<Rightarrow> nat \<Rightarrow> bool)
     \<and> length [3, 1, 2 :: nat] \<le> SIZE_MAX \<and> (3 :: nat) \<le> length [3, 1, 2 :: nat]
     \<and> \<not> (\<exists>a b :: nat. equal_rank (<) a b \<and> a \<noteq> b)
     \<and> (\<exists>heap sorted. make_heap 3 2 (<) [3, 1, 2 :: nat] 3 = Some heap
           \<and> sort_heap 3 2 (<) heap 3 = Some sorted
           \<and> take 3 sorted = [1, 2, 3])"
proof -
  have l: "valid_layout 3 2" by (simp add: valid_layout_def SIZE_MAX_def)
  have s: "strict_weak_order ((<) :: nat \<Rightarrow> nat \<Rightarrow> bool)"
    by (auto simp: strict_weak_order_def)
  have b: "length [3, 1, 2 :: nat] \<le> SIZE_MAX" "(3 :: nat) \<le> length [3, 1, 2 :: nat]"
    by (simp_all add: SIZE_MAX_def)
  have t: "\<forall>a b :: nat. equal_rank (<) a b \<longrightarrow> a = b" by (auto simp: equal_rank_def)
  have r: "ref_sort (<) (take 3 [3, 1, 2 :: nat]) = [1, 2, 3]" by (simp add: ref_sort_def)
  from make_heap_sort_heap_sorts[OF l s b] obtain heap sorted where
    h1: "make_heap 3 2 (<) [3, 1, 2 :: nat] 3 = Some heap"
    and h2: "sort_heap 3 2 (<) heap 3 = Some sorted"
    and h3: "(\<forall>a b :: nat. equal_rank (<) a b \<longrightarrow> a = b)
       \<longrightarrow> take 3 sorted = ref_sort (<) (take 3 [3, 1, 2 :: nat])"
    by (elim exE conjE)
  have "take 3 sorted = ref_sort (<) (take 3 [3, 1, 2 :: nat])" using h3 t by (rule mp)
  then have e: "take 3 sorted = [1, 2, 3]" unfolding r .
  have "\<exists>heap sorted. make_heap 3 2 (<) [3, 1, 2 :: nat] 3 = Some heap
           \<and> sort_heap 3 2 (<) heap 3 = Some sorted \<and> take 3 sorted = [1, 2, 3]"
    using h1 h2 e by (intro exI conjI)
  moreover have "\<not> (\<exists>a b :: nat. equal_rank (<) a b \<and> a \<noteq> b)"
    by (auto simp: equal_rank_def)
  ultimately show ?thesis using l s b by (intro conjI)
qed

text \<open>
  Claim C9, as stated: from any valid max-heap, removing all the items by \<open>remove_from_heap\<close>
  with \<open>item = first\<close> on the shrinking range leaves exactly the sequence that repeated
  \<open>pop_heap\<close> leaves. It fails for three items of equal rank that can be told apart:
  \<open>remove_from_heap\<close> puts the last item at the root without moving anything else,
  \<open>pop_heap\<close> sifts the hole down first.
\<close>

theorem remove_all_vs_pop_all_counterexample:
  "strict_weak_order by_key
     \<and> is_heap 2 1 by_key [(5, 1), (5, 2), (5, 3)] 3 = Some True
     \<and> repeat_shrinking (\<lambda>xs n. remove_from_heap 2 1 by_key xs 0 n) [(5, 1), (5, 2), (5, 3)] 3
         = Some [(5, 2), (5, 3), (5, 1)]
     \<and> repeat_shrinking (pop_heap 2 1 by_key) [(5, 1), (5, 2), (5, 3)] 3
         = Some [(5, 3), (5, 2), (5, 1)]
     \<and> repeat_shrinking (\<lambda>xs n. remove_from_heap 2 1 by_key xs 0 n) [(5, 1), (5, 2), (5, 3)] 3
         \<noteq> repeat_shrinking (pop_heap 2 1 by_key) [(5, 1), (5, 2), (5, 3)] 3"
proof -
  have s: "strict_weak_order by_key" by (auto simp: strict_weak_order_def by_key_def)
  have h: "is_heap 2 1 by_key [(5, 1), (5, 2), (5, 3)] 3 = Some True"
    by (simp add: is_heap_def is_heap_until_def is_heap_until_from.simps get_parent_index_def
        wsub_def by_key_def Let_def)
  have r3: "remove_from_heap 2 1 by_key [(5, 1), (5, 2), (5, 3)] 0 3
              = Some [(5, 3), (5, 2), (5, 1)]"
    by (simp add: remove_from_heap_def sift_up.simps wsub_def by_key_def Let_def)
  have r2: "remove_from_heap 2 1 by_key [(5, 3), (5, 2), (5, 1)] 0 2
              = Some [(5, 2), (5, 3), (5, 1)]"
    by (simp add: remove_from_heap_def sift_up.simps wsub_def by_key_def Let_def)
  have r1: "remove_from_heap 2 1 by_key [(5, 2), (5, 3), (5, 1)] 0 1
              = Some [(5, 2), (5, 3), (5, 1)]"
    by (simp add: remove_from_heap_def sift_up.simps wsub_def by_key_def Let_def)
  have r: "repeat_shrinking (\<lambda>xs n. remove_from_heap 2 1 by_key xs 0 n)
             [(5, 1), (5, 2), (5, 3)] 3 = Some [(5, 2), (5, 3), (5, 1)]"
    using r3 r2 r1 by (rule repeat_shrinking_3)
  note ev = pop_heap_def pop_heap_priv_def sift_down_def sift_down_loop.simps
    move_up_max_child_def max_child_offset_def get_child_index_def get_parent_index_def
    sift_up.simps wsub_def wadd_def wmul_def SIZE_MAX_def by_key_def Let_def
  have p3: "pop_heap 2 1 by_key [(5, 1), (5, 2), (5, 3)] 3 = Some [(5, 2), (5, 3), (5, 1)]"
    by (simp add: ev)
  have p2: "pop_heap 2 1 by_key [(5, 2), (5, 3), (5, 1)] 2 = Some [(5, 3), (5, 2), (5, 1)]"
    by (simp add: ev)
  have p1: "pop_heap 2 1 by_key [(5, 3), (5, 2), (5, 1)] 1 = Some [(5, 3), (5, 2), (5, 1)]"
    by (simp add: ev)
  have p: "repeat_shrinking (pop_heap 2 1 by_key) [(5, 1), (5, 2), (5, 3)] 3
             = Some [(5, 3), (5, 2), (5, 1)]"
    using p3 p2 p1 by (rule repeat_shrinking_3)
  have "repeat_shrinking (\<lambda>xs n. remove_from_heap 2 1 by_key xs 0 n) [(5, 1), (5, 2), (5, 3)] 3
         \<noteq> repeat_shrinking (pop_heap 2 1 by_key) [(5, 1), (5, 2), (5, 3)] 3"
    unfolding r p by simp
  then show ?thesis using s h r p by (intro conjI)
qed

text \<open>
  Claim C9, amended: from any valid max-heap under a strict weak order, removing all the
  items by \<open>remove_from_heap\<close> with \<open>item = first\<close> on the shrinking range and repeated
  \<open>pop_heap\<close> on the same shrinking range both return, both leave the range in ascending
  order with the multiset of items it had (and the items past the range untouched), and the
  two resulting sequences agree position by position up to equal rank; they are the same
  sequence when the comparator ranks no two distinct values equal.
\<close>

theorem remove_all_vs_pop_all:
  assumes L: "valid_layout Fanout PageChunks" and swo: "strict_weak_order less_comparer"
    and len: "length first \<le> SIZE_MAX" and n: "last_off \<le> length first"
    and H: "is_heap Fanout PageChunks less_comparer first last_off = Some True"
  shows "\<exists>removed popped.
           repeat_shrinking (\<lambda>xs n. remove_from_heap Fanout PageChunks less_comparer xs 0 n)
               first last_off = Some removed
           \<and> repeat_shrinking (pop_heap Fanout PageChunks less_comparer) first last_off
               = Some popped
           \<and> length removed = length first \<and> length popped = length first
           \<and> ascending less_comparer (take last_off removed)
           \<and> ascending less_comparer (take last_off popped)
           \<and> mset (take last_off removed) = mset (take last_off first)
           \<and> mset (take last_off popped) = mset (take last_off first)
           \<and> drop last_off removed = drop last_off first
           \<and> drop last_off popped = drop last_off first
           \<and> list_all2 (equal_rank less_comparer) removed popped
           \<and> ((\<forall>a b. equal_rank less_comparer a b \<longrightarrow> a = b) \<longrightarrow> removed = popped)"
proof -
  let ?n = last_off
  have hf: "heap_from Fanout PageChunks less_comparer first ?n 0"
    using H is_heap_True[OF L len n] by simp
  obtain r where r:
    "repeat_shrinking (\<lambda>xs n. remove_from_heap Fanout PageChunks less_comparer xs 0 n) first ?n
       = Some r"
    "length r = length first" "mset (take ?n r) = mset (take ?n first)"
    "drop ?n r = drop ?n first" "ascending less_comparer (take ?n r)"
    using repeat_shrinking_ascending[OF L swo remove_from_heap_step[OF L swo] len n hf]
    by blast
  obtain p where p:
    "repeat_shrinking (pop_heap Fanout PageChunks less_comparer) first ?n = Some p"
    "length p = length first" "mset (take ?n p) = mset (take ?n first)"
    "drop ?n p = drop ?n first" "ascending less_comparer (take ?n p)"
    using repeat_shrinking_ascending[OF L swo pop_heap_step[OF L swo] len n hf]
    by blast
  have m: "mset (take ?n r) = mset (take ?n p)" using r(3) p(3) by simp
  have t: "list_all2 (equal_rank less_comparer) (take ?n r) (take ?n p)"
    using swo r(5) p(5) m by (rule ascending_perm_equal_rank)
  have d: "list_all2 (equal_rank less_comparer) (drop ?n r) (drop ?n p)"
    unfolding r(4) p(4) list_all2_conv_all_nth equal_rank_def
    using swo_irrefl[OF swo] by simp
  have "list_all2 (equal_rank less_comparer) (take ?n r @ drop ?n r) (take ?n p @ drop ?n p)"
    using t d by (rule list_all2_appendI)
  then have e: "list_all2 (equal_rank less_comparer) r p" by simp
  have u: "r = p" if tot: "\<forall>a b. equal_rank less_comparer a b \<longrightarrow> a = b"
  proof -
    have "take ?n r = take ?n p" using swo r(5) p(5) m tot by (rule ascending_perm_unique)
    then have "take ?n r @ drop ?n r = take ?n p @ drop ?n p" using r(4) p(4) by simp
    then show ?thesis by simp
  qed
  have "removed_all = Some r \<and> popped_all = Some p
          \<and> length r = length first \<and> length p = length first
          \<and> ascending less_comparer (take ?n r) \<and> ascending less_comparer (take ?n p)
          \<and> mset (take ?n r) = mset (take ?n first) \<and> mset (take ?n p) = mset (take ?n first)
          \<and> drop ?n r = drop ?n first \<and> drop ?n p = drop ?n first
          \<and> list_all2 (equal_rank less_comparer) r p
          \<and> ((\<forall>a b. equal_rank less_comparer a b \<longrightarrow> a = b) \<longrightarrow> r = p)"
    if "removed_all = Some r" "popped_all = Some p" for removed_all popped_all
    using that r(2,3,4,5) p(2,3,4,5) e u by (intro conjI impI) assumption+
  from this[OF r(1) p(1)] show ?thesis by (intro exI)
qed

theorem remove_all_vs_pop_all_witness:
  "valid_layout 2 2 \<and> strict_weak_order ((<) :: nat \<Rightarrow> nat \<Rightarrow> bool)
     \<and> length [9, 5, 7, 3 :: nat] \<le> SIZE_MAX \<and> (4 :: nat) \<le> length [9, 5, 7, 3 :: nat]
     \<and> is_heap 2 2 (<) [9, 5, 7, 3 :: nat] 4 = Some True
     \<and> \<not> (\<exists>a b :: nat. equal_rank (<) a b \<and> a \<noteq> b)
     \<and> repeat_shrinking (\<lambda>xs n. remove_from_heap 2 2 (<) xs 0 n) [9, 5, 7, 3 :: nat] 4
           = Some [3, 5, 7, 9]
     \<and> repeat_shrinking (pop_heap 2 2 (<)) [9, 5, 7, 3 :: nat] 4 = Some [3, 5, 7, 9]"
proof -
  have l: "valid_layout 2 2" by (simp add: valid_layout_def SIZE_MAX_def)
  have s: "strict_weak_order ((<) :: nat \<Rightarrow> nat \<Rightarrow> bool)"
    by (auto simp: strict_weak_order_def)
  have b: "length [9, 5, 7, 3 :: nat] \<le> SIZE_MAX" "(4 :: nat) \<le> length [9, 5, 7, 3 :: nat]"
    by (simp_all add: SIZE_MAX_def)
  have h: "is_heap 2 2 (<) [9, 5, 7, 3 :: nat] 4 = Some True"
    by (simp add: is_heap_def is_heap_until_def is_heap_until_from.simps get_parent_index_def
        wsub_def wadd_def wmul_def Let_def)
  have t: "\<forall>a b :: nat. equal_rank (<) a b \<longrightarrow> a = b" by (auto simp: equal_rank_def)
  from remove_all_vs_pop_all[OF l s b h] obtain removed popped where
    r: "repeat_shrinking (\<lambda>xs n. remove_from_heap 2 2 (<) xs 0 n) [9, 5, 7, 3 :: nat] 4
          = Some removed"
    and p: "repeat_shrinking (pop_heap 2 2 (<)) [9, 5, 7, 3 :: nat] 4 = Some popped"
    and n: "length removed = length [9, 5, 7, 3 :: nat]"
    and a: "ascending (<) (take 4 removed)"
    and m: "mset (take 4 removed) = mset (take 4 [9, 5, 7, 3 :: nat])"
    and u: "(\<forall>a b :: nat. equal_rank (<) a b \<longrightarrow> a = b) \<longrightarrow> removed = popped"
    by (elim exE conjE)
  have e: "removed = popped" using u t by (rule mp)
  have k: "take 4 removed = removed" using n by simp
  have a': "ascending (<) removed" using a unfolding k .
  have c: "ascending (<) [3, 5, 7, 9 :: nat]" by (simp add: ascending_def)
  have m': "mset removed = mset [3, 5, 7, 9 :: nat]" using m unfolding k by simp
  have v: "removed = [3, 5, 7, 9]" using s a' c m' t by (rule ascending_perm_unique)
  have r': "repeat_shrinking (\<lambda>xs n. remove_from_heap 2 2 (<) xs 0 n) [9, 5, 7, 3 :: nat] 4
              = Some [3, 5, 7, 9]"
    using r unfolding v .
  have p': "repeat_shrinking (pop_heap 2 2 (<)) [9, 5, 7, 3 :: nat] 4 = Some [3, 5, 7, 9]"
    using p unfolding e[symmetric] v .
  have q: "\<not> (\<exists>a b :: nat. equal_rank (<) a b \<and> a \<noteq> b)"
    by (auto simp: equal_rank_def)
  show ?thesis using l s b h q r' p' by (intro conjI)
qed

section \<open>Claims about the N-way merge\<close>

text \<open>
  Claim C3. For \<open>k \<ge> 1\<close> input ranges, each non-empty and in ascending order under a strict
  weak order, \<open>nway_merge\<close> returns, and the sequence written to the output is in ascending
  order, holds every item of every input range exactly once (its multiset is the one of the
  concatenation of the inputs), and agrees with the reference sort of the concatenation of
  the inputs position by position up to equal rank; where the comparator ranks no two
  distinct values equal, it is the reference sort of the concatenation.
\<close>

theorem nway_merge_sorted_merge:
  assumes L: "valid_layout Fanout PageChunks" and swo: "strict_weak_order less_comparer"
    and len: "length input_ranges_first \<le> SIZE_MAX"
    and k1: "1 \<le> input_ranges_last" and k: "input_ranges_last \<le> length input_ranges_first"
    and ne: "\<forall>r\<in>set (take input_ranges_last input_ranges_first).
               r \<noteq> [] \<and> ascending less_comparer r"
  shows "\<exists>ranges output.
           nway_merge Fanout PageChunks less_comparer input_ranges_first input_ranges_last
             = Some (ranges, output)
           \<and> ascending less_comparer output
           \<and> mset output = mset (concat (take input_ranges_last input_ranges_first))
           \<and> list_all2 (equal_rank less_comparer) output
                (ref_sort less_comparer (concat (take input_ranges_last input_ranges_first)))
           \<and> ((\<forall>a b. equal_rank less_comparer a b \<longrightarrow> a = b)
                \<longrightarrow> output
                    = ref_sort less_comparer (concat (take input_ranges_last input_ranges_first)))"
proof -
  let ?all = "concat (take input_ranges_last input_ranges_first)"
  let ?ref = "ref_sort less_comparer ?all"
  have ne': "\<forall>i<input_ranges_last. input_ranges_first ! i \<noteq> []
               \<and> ascending less_comparer (input_ranges_first ! i)"
  proof (intro allI impI)
    fix i assume i: "i < input_ranges_last"
    then have "take input_ranges_last input_ranges_first ! i
                 \<in> set (take input_ranges_last input_ranges_first)"
      using k by (intro nth_mem) simp
    then have "input_ranges_first ! i \<in> set (take input_ranges_last input_ranges_first)"
      using i by simp
    then show "input_ranges_first ! i \<noteq> [] \<and> ascending less_comparer (input_ranges_first ! i)"
      using ne by blast
  qed
  obtain ranges merged where r:
    "nway_merge Fanout PageChunks less_comparer input_ranges_first input_ranges_last
       = Some (ranges, merged)"
    "ascending less_comparer merged" "mset merged = mset ?all"
    using nway_merge_spec[OF L swo len k1 k ne'] by blast
  have a: "ascending less_comparer ?ref" using swo by (rule ascending_ref_sort)
  have m: "mset merged = mset ?ref" using r(3) by (simp add: mset_ref_sort)
  have e: "list_all2 (equal_rank less_comparer) merged ?ref"
    using swo r(2) a m by (rule ascending_perm_equal_rank)
  have u: "merged = ?ref" if "\<forall>a b. equal_rank less_comparer a b \<longrightarrow> a = b"
    using swo r(2) a m that by (rule ascending_perm_unique)
  have "r' = Some (ranges, merged) \<and> ascending less_comparer merged \<and> mset merged = mset ?all
          \<and> list_all2 (equal_rank less_comparer) merged ?ref
          \<and> ((\<forall>a b. equal_rank less_comparer a b \<longrightarrow> a = b) \<longrightarrow> merged = ?ref)"
    if "r' = Some (ranges, merged)" for r'
    using that r(2,3) e u by (intro conjI impI) assumption+
  from this[OF r(1)] show ?thesis by (intro exI)
qed

theorem nway_merge_sorted_merge_witness:
  "valid_layout 2 1 \<and> strict_weak_order ((<) :: nat \<Rightarrow> nat \<Rightarrow> bool)
     \<and> length [[1, 4, 7], [2, 3], [5, 6, 8, 9 :: nat]] \<le> SIZE_MAX
     \<and> (1 :: nat) \<le> 3 \<and> (3 :: nat) \<le> length [[1, 4, 7], [2, 3], [5, 6, 8, 9 :: nat]]
     \<and> [1, 4, 7 :: nat] \<noteq> [] \<and> ascending (<) [1, 4, 7 :: nat]
     \<and> [2, 3 :: nat] \<noteq> [] \<and> ascending (<) [2, 3 :: nat]
     \<and> [5, 6, 8, 9 :: nat] \<noteq> [] \<and> ascending (<) [5, 6, 8, 9 :: nat]
     \<and> \<not> (\<exists>a b :: nat. equal_rank (<) a b \<and> a \<noteq> b)
     \<and> (\<exists>ranges. nway_merge 2 1 (<) [[1, 4, 7], [2, 3], [5, 6, 8, 9 :: nat]] 3
            = Some (ranges, [1, 2, 3, 4, 5, 6, 7, 8, 9]))"
proof -
  have l: "valid_layout 2 1" by (simp add: valid_layout_def SIZE_MAX_def)
  have s: "strict_weak_order ((<) :: nat \<Rightarrow> nat \<Rightarrow> bool)"
    by (auto simp: strict_weak_order_def)
  have b: "length [[1, 4, 7], [2, 3], [5, 6, 8, 9 :: nat]] \<le> SIZE_MAX" "(1 :: nat) \<le> 3"
    "(3 :: nat) \<le> length [[1, 4, 7], [2, 3], [5, 6, 8, 9 :: nat]]"
    by (simp_all add: SIZE_MAX_def)
  have a1: "[1, 4, 7 :: nat] \<noteq> [] \<and> ascending (<) [1, 4, 7 :: nat]"
    and a2: "[2, 3 :: nat] \<noteq> [] \<and> ascending (<) [2, 3 :: nat]"
    and a3: "[5, 6, 8, 9 :: nat] \<noteq> [] \<and> ascending (<) [5, 6, 8, 9 :: nat]"
    by (simp_all add: ascending_def)
  have ne: "\<forall>r\<in>set (take 3 [[1, 4, 7], [2, 3], [5, 6, 8, 9 :: nat]]).
              r \<noteq> [] \<and> ascending (<) r"
    using a1 a2 a3 by simp
  have t: "\<forall>a b :: nat. equal_rank (<) a b \<longrightarrow> a = b" by (auto simp: equal_rank_def)
  have q: "\<not> (\<exists>a b :: nat. equal_rank (<) a b \<and> a \<noteq> b)" by (auto simp: equal_rank_def)
  have r: "ref_sort (<) (concat (take 3 [[1, 4, 7], [2, 3], [5, 6, 8, 9 :: nat]]))
             = [1, 2, 3, 4, 5, 6, 7, 8, 9]"
    by (simp add: ref_sort_def)
  from nway_merge_sorted_merge[OF l s b ne] obtain ranges merged where
    h1: "nway_merge 2 1 (<) [[1, 4, 7], [2, 3], [5, 6, 8, 9 :: nat]] 3 = Some (ranges, merged)"
    and h2: "(\<forall>a b :: nat. equal_rank (<) a b \<longrightarrow> a = b)
       \<longrightarrow> merged = ref_sort (<) (concat (take 3 [[1, 4, 7], [2, 3], [5, 6, 8, 9 :: nat]]))"
    by (elim exE conjE)
  have "merged = ref_sort (<) (concat (take 3 [[1, 4, 7], [2, 3], [5, 6, 8, 9 :: nat]]))"
    using h2 t by (rule mp)
  then have e: "merged = [1, 2, 3, 4, 5, 6, 7, 8, 9]" unfolding r .
  have "\<exists>ranges. nway_merge 2 1 (<) [[1, 4, 7], [2, 3], [5, 6, 8, 9 :: nat]] 3
            = Some (ranges, [1, 2, 3, 4, 5, 6, 7, 8, 9])"
    using h1 unfolding e by (rule exI)
  then show ?thesis using l s b a1 a2 a3 q by (intro conjI) simp_all
qed

end
